theory Spec2Isabelle
  imports
    Main
    "HOL-Library.Multiset"
    "HOL-Library.Char_ord"
    "HOL-Library.List_Lexorder"
begin

section \<open>The signer pipeline of hw2\_signer/signer.go\<close>

text \<open>
  The file signer.go holds three pipeline stages (\<open>SingleHash\<close>, \<open>MultiHash\<close>,
  \<open>CombineResults\<close>) and the executor \<open>ExecutePipeline\<close>. The stages talk over
  unbuffered channels of \<open>interface{}\<close> values and start goroutines, so each
  concurrent stage is modelled as a transition system: the state holds the control
  point of every goroutine of the stage, an event names the goroutine that moves next,
  and a schedule is a list of events. A step that the goroutine cannot take (a blocked
  receive, a held mutex, a wait group that is not yet zero) is \<open>None\<close>.

  The two digest functions \<open>DataSignerCrc32\<close> and \<open>DataSignerMd5\<close> are declared
  outside signer.go; every definition takes them as the parameters \<open>crc32\<close> and
  \<open>md5\<close>, pure functions of type \<open>string \<Rightarrow> string\<close>.
\<close>

subsection \<open>Values, strconv.Itoa, strings.Join, sort.Strings\<close>

text \<open>
  A channel element has type \<open>interface{}\<close>. The stages only distinguish a dynamic
  \<open>int\<close>, a dynamic \<open>string\<close> and everything else. The stages never do arithmetic on
  the integer, they only print it, so it is an \<open>int\<close> here.
\<close>

datatype val = IntV int | StrV string | OtherV

text \<open>\<open>strconv.Itoa\<close>: the decimal form, with a leading minus sign for negatives.\<close>

definition digit :: "nat \<Rightarrow> char" where
  "digit d = ''0123456789'' ! d"

function nat_digits :: "nat \<Rightarrow> string" where
  "nat_digits n = (if n < 10 then [digit n] else nat_digits (n div 10) @ [digit (n mod 10)])"
  by pat_completeness auto
termination
  by (relation "measure (\<lambda>n. n)") auto

declare nat_digits.simps [simp del]

definition Itoa :: "int \<Rightarrow> string" where
  "Itoa n = (if n < 0 then CHR ''-'' # nat_digits (nat (- n)) else nat_digits (nat n))"

text \<open>\<open>strings.Join(elems, sep)\<close>.\<close>

fun Join :: "string list \<Rightarrow> string \<Rightarrow> string" where
  "Join [] sep = []"
| "Join [x] sep = x"
| "Join (x # y # ys) sep = x @ sep @ Join (y # ys) sep"

text \<open>
  \<open>sort.Strings\<close> sorts in increasing order of Go's string comparison, which compares
  byte by byte and puts a proper prefix first. This is the order of \<open>char list\<close>
  given by \<open>Char_ord\<close> and \<open>List_Lexorder\<close>, and \<open>sort\<close> is the sorted permutation.
\<close>

definition Strings :: "string list \<Rightarrow> string list" where
  "Strings xs = sort xs"

subsection \<open>CombineResults\<close>

text \<open>
  What a stage has done when it can do no more: it returned, it waits for ever on a
  receive from a channel that is neither fed nor closed, or it panicked. Each carries the
  values sent on \<open>out\<close>, in order.
\<close>

datatype outcome = Returned "val list" | Blocked "val list" | Panicked "val list"

text \<open>
  The input channel of a stage is the list of the values that will still arrive on it and
  a flag that tells whether the channel is closed after them.

  \<open>CombineResults\<close> is sequential. \<open>CombineResults_loop\<close> is the \<open>for unit := range in\<close>
  of lines 67 to 73 with the slice \<open>result\<close>, followed by lines 74 and 75.
\<close>

fun CombineResults_loop :: "string list \<Rightarrow> val list \<Rightarrow> bool \<Rightarrow> outcome" where
  "CombineResults_loop result [] closed =
     (if closed then Returned [StrV (Join (Strings result) ''_'')] else Blocked [])"
| "CombineResults_loop result (unit # rest) closed =
     (case unit of
        StrV data \<Rightarrow> CombineResults_loop (result @ [data]) rest closed
      | _ \<Rightarrow> Panicked [])"

definition CombineResults :: "val list \<Rightarrow> bool \<Rightarrow> outcome" where
  "CombineResults inp closed = CombineResults_loop [] inp closed"

subsection \<open>SingleHash\<close>

text \<open>
  The control points of the goroutines of a stage's own function: the
  \<open>for unit := range in\<close> loop, the final \<open>wg.Wait()\<close>, the return, and the
  \<open>panic("type assertion failed")\<close>. A panic that is not recovered ends the program:
  no goroutine of the stage moves after it.
\<close>

datatype stage_pc = AtRange | AtWait | AtReturn | AtPanic

text \<open>
  The goroutine of lines 29 to 31: it calls \<open>DataSignerCrc32(md5)\<close> and then offers the
  digest on the unbuffered channel \<open>ch2\<close>.
\<close>

datatype sh_sub = SubCall string | SubSend string

text \<open>
  The goroutine of lines 20 to 33, one for each integer received, by the statement it
  executes next:
  \<^item> \<open>AtLock data\<close>: \<open>mu.Lock()\<close>, line 24;
  \<^item> \<open>AtMd5 data\<close>: the mutex is held and \<open>DataSignerMd5(data)\<close> is running, line 26;
  \<^item> \<open>AtUnlock data md5\<close>: the call has returned, the deferred \<open>mu.Unlock()\<close> of
    line 25 is next;
  \<^item> \<open>AtGo data md5\<close>: lines 28 to 31, \<open>ch2\<close> is made and the second goroutine started;
  \<^item> \<open>AtCrc data sub\<close>: line 32, the call \<open>DataSignerCrc32(data)\<close>, the first operand;
  \<^item> \<open>AtRecv crc sub\<close>: line 32, the receive \<open>\<open><-ch2\<close>\<close>;
  \<^item> \<open>AtSend res\<close>: line 32, the send of the concatenation on \<open>out\<close>;
  \<^item> \<open>AtDone\<close>: the deferred \<open>wg.Done()\<close> of line 21;
  \<^item> \<open>Exited\<close>: the goroutine has ended.
\<close>

datatype sh_worker =
    AtLock string
  | AtMd5 string
  | AtUnlock string string
  | AtGo string string
  | AtCrc string sh_sub
  | AtRecv string sh_sub
  | AtSend string
  | AtDone
  | Exited

record sh_state =
  sh_in :: "val list"
  sh_closed :: bool
  sh_pc :: stage_pc
  sh_wg :: nat
  sh_mu :: bool
  sh_workers :: "sh_worker list"
  sh_out :: "val list"

datatype sh_event = ShMain | ShWorker nat | ShSub nat

definition SingleHash_init :: "val list \<Rightarrow> bool \<Rightarrow> sh_state" where
  "SingleHash_init inp closed =
     \<lparr>sh_in = inp, sh_closed = closed, sh_pc = AtRange, sh_wg = 0, sh_mu = False,
      sh_workers = [], sh_out = []\<rparr>"

text \<open>
  Lines 13 to 19 and 35: one receive of the range loop with the type assertion and the
  start of the item's goroutine, the end of the loop when the channel is closed, and the
  wait for the counter of \<open>wg\<close> to reach zero.
\<close>

definition sh_main_step :: "sh_state \<Rightarrow> sh_state option" where
  "sh_main_step s =
     (case sh_pc s of
        AtRange \<Rightarrow>
          (case sh_in s of
             [] \<Rightarrow> if sh_closed s then Some (s\<lparr>sh_pc := AtWait\<rparr>) else None
           | unit # rest \<Rightarrow>
               (case unit of
                  IntV num \<Rightarrow>
                    Some (s\<lparr>sh_in := rest, sh_wg := sh_wg s + 1,
                            sh_workers := sh_workers s @ [AtLock (Itoa num)]\<rparr>)
                | _ \<Rightarrow> Some (s\<lparr>sh_in := rest, sh_pc := AtPanic\<rparr>)))
      | AtWait \<Rightarrow> if sh_wg s = 0 then Some (s\<lparr>sh_pc := AtReturn\<rparr>) else None
      | AtReturn \<Rightarrow> None
      | AtPanic \<Rightarrow> None)"

text \<open>
  One statement of the goroutine of item \<open>i\<close>. \<open>mu.Lock()\<close> waits while the mutex is
  held. Unlocking a mutex that is not locked and a wait group counter below zero are
  run-time failures of the \<open>sync\<close> package, which end the program as a panic does.
\<close>

definition sh_worker_step ::
    "(string \<Rightarrow> string) \<Rightarrow> (string \<Rightarrow> string) \<Rightarrow> sh_state \<Rightarrow> nat \<Rightarrow> sh_state option" where
  "sh_worker_step crc32 md5 s i =
     (if length (sh_workers s) \<le> i then None
      else
        (case sh_workers s ! i of
           AtLock data \<Rightarrow>
             if sh_mu s then None
             else Some (s\<lparr>sh_mu := True, sh_workers := (sh_workers s)[i := AtMd5 data]\<rparr>)
         | AtMd5 data \<Rightarrow>
             Some (s\<lparr>sh_workers := (sh_workers s)[i := AtUnlock data (md5 data)]\<rparr>)
         | AtUnlock data m \<Rightarrow>
             if sh_mu s
             then Some (s\<lparr>sh_mu := False, sh_workers := (sh_workers s)[i := AtGo data m]\<rparr>)
             else Some (s\<lparr>sh_pc := AtPanic\<rparr>)
         | AtGo data m \<Rightarrow>
             Some (s\<lparr>sh_workers := (sh_workers s)[i := AtCrc data (SubCall m)]\<rparr>)
         | AtCrc data sub \<Rightarrow>
             Some (s\<lparr>sh_workers := (sh_workers s)[i := AtRecv (crc32 data) sub]\<rparr>)
         | AtRecv c sub \<Rightarrow>
             (case sub of
                SubCall m \<Rightarrow> None
              | SubSend v \<Rightarrow>
                  Some (s\<lparr>sh_workers := (sh_workers s)[i := AtSend (c @ ''~'' @ v)]\<rparr>))
         | AtSend res \<Rightarrow>
             Some (s\<lparr>sh_out := sh_out s @ [StrV res],
                     sh_workers := (sh_workers s)[i := AtDone]\<rparr>)
         | AtDone \<Rightarrow>
             if sh_wg s = 0 then Some (s\<lparr>sh_pc := AtPanic\<rparr>)
             else Some (s\<lparr>sh_wg := sh_wg s - 1, sh_workers := (sh_workers s)[i := Exited]\<rparr>)
         | Exited \<Rightarrow> None))"

text \<open>
  The second goroutine of item \<open>i\<close> computes its digest. Its send on \<open>ch2\<close> completes
  together with the receive of line 32, which is the \<open>AtRecv\<close> step above.
\<close>

definition sh_sub_step :: "(string \<Rightarrow> string) \<Rightarrow> sh_state \<Rightarrow> nat \<Rightarrow> sh_state option" where
  "sh_sub_step crc32 s i =
     (if length (sh_workers s) \<le> i then None
      else
        (case sh_workers s ! i of
           AtCrc data (SubCall m) \<Rightarrow>
             Some (s\<lparr>sh_workers := (sh_workers s)[i := AtCrc data (SubSend (crc32 m))]\<rparr>)
         | AtRecv c (SubCall m) \<Rightarrow>
             Some (s\<lparr>sh_workers := (sh_workers s)[i := AtRecv c (SubSend (crc32 m))]\<rparr>)
         | _ \<Rightarrow> None))"

definition sh_step ::
    "(string \<Rightarrow> string) \<Rightarrow> (string \<Rightarrow> string) \<Rightarrow> sh_state \<Rightarrow> sh_event \<Rightarrow> sh_state option" where
  "sh_step crc32 md5 s ev =
     (if sh_pc s = AtPanic then None
      else
        (case ev of
           ShMain \<Rightarrow> sh_main_step s
         | ShWorker i \<Rightarrow> sh_worker_step crc32 md5 s i
         | ShSub i \<Rightarrow> sh_sub_step crc32 s i))"

fun sh_exec ::
    "(string \<Rightarrow> string) \<Rightarrow> (string \<Rightarrow> string) \<Rightarrow> sh_state \<Rightarrow> sh_event list \<Rightarrow> sh_state option" where
  "sh_exec crc32 md5 s [] = Some s"
| "sh_exec crc32 md5 s (ev # evs) =
     (case sh_step crc32 md5 s ev of
        None \<Rightarrow> None
      | Some s' \<Rightarrow> sh_exec crc32 md5 s' evs)"

text \<open>\<open>SingleHash\<close> run on a whole, closed input under a schedule: what it sent, if it returned.\<close>

definition SingleHash :: 
    "(string \<Rightarrow> string) \<Rightarrow> (string \<Rightarrow> string) \<Rightarrow> val list \<Rightarrow> sh_event list \<Rightarrow> val list option" where
  "SingleHash crc32 md5 inp sched =
     (case sh_exec crc32 md5 (SingleHash_init inp True) sched of
        None \<Rightarrow> None
      | Some s \<Rightarrow> if sh_pc s = AtReturn then Some (sh_out s) else None)"

subsection \<open>MultiHash\<close>

definition numHashes :: nat where
  "numHashes = 6"

text \<open>
  The goroutine of lines 53 to 56 for the index \<open>i\<close>: at line 55 (the call of
  \<open>DataSignerCrc32\<close> and the store into \<open>multiRes[i]\<close>), at the deferred \<open>wgIn.Done()\<close>
  of line 54, or ended.
\<close>

datatype mh_inner = InCall nat | InDone | InExited

text \<open>
  The goroutine of lines 46 to 60, one for each string received, by the statement it
  executes next: the loop of line 52 with its counter \<open>i\<close>, \<open>wgIn.Wait()\<close> of line 58,
  the send of line 59, the deferred \<open>wg.Done()\<close> of line 47, ended. Its locals are the
  parameter \<open>data\<close>, the array \<open>multiRes\<close>, the counter of \<open>wgIn\<close> and the goroutines
  it has started, in the order of their start.
\<close>

datatype mh_point = MFor nat | MWait | MSend | MDone | MExited

record mh_worker =
  mw_data :: string
  mw_pc :: mh_point
  mw_multiRes :: "string list"
  mw_wgIn :: nat
  mw_inner :: "mh_inner list"

record mh_state =
  mh_in :: "val list"
  mh_closed :: bool
  mh_pc :: stage_pc
  mh_wg :: nat
  mh_workers :: "mh_worker list"
  mh_out :: "val list"

datatype mh_event = MhMain | MhWorker nat | MhInner nat nat

definition MultiHash_init :: "val list \<Rightarrow> bool \<Rightarrow> mh_state" where
  "MultiHash_init inp closed =
     \<lparr>mh_in = inp, mh_closed = closed, mh_pc = AtRange, mh_wg = 0, mh_workers = [],
      mh_out = []\<rparr>"

text \<open>
  The goroutine of an item after lines 48 to 51: \<open>multiRes\<close> holds six empty strings and
  the counter of \<open>wgIn\<close> is six.
\<close>

definition mh_spawn :: "string \<Rightarrow> mh_worker" where
  "mh_spawn data =
     \<lparr>mw_data = data, mw_pc = MFor 0, mw_multiRes = replicate numHashes [],
      mw_wgIn = numHashes, mw_inner = []\<rparr>"

text \<open>Lines 40 to 45 and 62.\<close>

definition mh_main_step :: "mh_state \<Rightarrow> mh_state option" where
  "mh_main_step s =
     (case mh_pc s of
        AtRange \<Rightarrow>
          (case mh_in s of
             [] \<Rightarrow> if mh_closed s then Some (s\<lparr>mh_pc := AtWait\<rparr>) else None
           | unit # rest \<Rightarrow>
               (case unit of
                  StrV data \<Rightarrow>
                    Some (s\<lparr>mh_in := rest, mh_wg := mh_wg s + 1,
                            mh_workers := mh_workers s @ [mh_spawn data]\<rparr>)
                | _ \<Rightarrow> Some (s\<lparr>mh_in := rest, mh_pc := AtPanic\<rparr>)))
      | AtWait \<Rightarrow> if mh_wg s = 0 then Some (s\<lparr>mh_pc := AtReturn\<rparr>) else None
      | AtReturn \<Rightarrow> None
      | AtPanic \<Rightarrow> None)"

text \<open>
  One statement of the goroutine of item \<open>i\<close>: an iteration of the loop of line 52, which
  starts the goroutine for the index, the exit of the loop, \<open>wgIn.Wait()\<close>, the send of
  \<open>strings.Join(multiRes[:], "")\<close>, and \<open>wg.Done()\<close>.
\<close>

definition mh_worker_step :: "mh_state \<Rightarrow> nat \<Rightarrow> mh_state option" where
  "mh_worker_step s i =
     (if length (mh_workers s) \<le> i then None
      else
        (let w = mh_workers s ! i in
         case mw_pc w of
           MFor k \<Rightarrow>
             if k < numHashes
             then Some (s\<lparr>mh_workers := (mh_workers s)
                     [i := w\<lparr>mw_pc := MFor (k + 1), mw_inner := mw_inner w @ [InCall k]\<rparr>]\<rparr>)
             else Some (s\<lparr>mh_workers := (mh_workers s)[i := w\<lparr>mw_pc := MWait\<rparr>]\<rparr>)
         | MWait \<Rightarrow>
             if mw_wgIn w = 0
             then Some (s\<lparr>mh_workers := (mh_workers s)[i := w\<lparr>mw_pc := MSend\<rparr>]\<rparr>)
             else None
         | MSend \<Rightarrow>
             Some (s\<lparr>mh_out := mh_out s @ [StrV (Join (mw_multiRes w) [])],
                     mh_workers := (mh_workers s)[i := w\<lparr>mw_pc := MDone\<rparr>]\<rparr>)
         | MDone \<Rightarrow>
             if mh_wg s = 0 then Some (s\<lparr>mh_pc := AtPanic\<rparr>)
             else Some (s\<lparr>mh_wg := mh_wg s - 1,
                          mh_workers := (mh_workers s)[i := w\<lparr>mw_pc := MExited\<rparr>]\<rparr>)
         | MExited \<Rightarrow> None))"

text \<open>
  One statement of the \<open>j\<close>-th goroutine started by item \<open>i\<close>: line 55, which stores
  \<open>DataSignerCrc32(strconv.Itoa(i) + data)\<close> at its own index of \<open>multiRes\<close> (an index
  outside the array is a run-time panic), and \<open>wgIn.Done()\<close>.
\<close>

definition mh_inner_step :: "(string \<Rightarrow> string) \<Rightarrow> mh_state \<Rightarrow> nat \<Rightarrow> nat \<Rightarrow> mh_state option" where
  "mh_inner_step crc32 s i j =
     (if length (mh_workers s) \<le> i then None
      else
        (let w = mh_workers s ! i in
         if length (mw_inner w) \<le> j then None
         else
           (case mw_inner w ! j of
              InCall k \<Rightarrow>
                if length (mw_multiRes w) \<le> k then Some (s\<lparr>mh_pc := AtPanic\<rparr>)
                else Some (s\<lparr>mh_workers := (mh_workers s)
                        [i := w\<lparr>mw_multiRes :=
                                  (mw_multiRes w)[k := crc32 (Itoa (int k) @ mw_data w)],
                                mw_inner := (mw_inner w)[j := InDone]\<rparr>]\<rparr>)
            | InDone \<Rightarrow>
                if mw_wgIn w = 0 then Some (s\<lparr>mh_pc := AtPanic\<rparr>)
                else Some (s\<lparr>mh_workers := (mh_workers s)
                        [i := w\<lparr>mw_wgIn := mw_wgIn w - 1,
                                mw_inner := (mw_inner w)[j := InExited]\<rparr>]\<rparr>)
            | InExited \<Rightarrow> None)))"

definition mh_step :: "(string \<Rightarrow> string) \<Rightarrow> mh_state \<Rightarrow> mh_event \<Rightarrow> mh_state option" where
  "mh_step crc32 s ev =
     (if mh_pc s = AtPanic then None
      else
        (case ev of
           MhMain \<Rightarrow> mh_main_step s
         | MhWorker i \<Rightarrow> mh_worker_step s i
         | MhInner i j \<Rightarrow> mh_inner_step crc32 s i j))"

fun mh_exec :: "(string \<Rightarrow> string) \<Rightarrow> mh_state \<Rightarrow> mh_event list \<Rightarrow> mh_state option" where
  "mh_exec crc32 s [] = Some s"
| "mh_exec crc32 s (ev # evs) =
     (case mh_step crc32 s ev of
        None \<Rightarrow> None
      | Some s' \<Rightarrow> mh_exec crc32 s' evs)"

text \<open>\<open>MultiHash\<close> run on a whole, closed input under a schedule: what it sent, if it returned.\<close>

definition MultiHash :: "(string \<Rightarrow> string) \<Rightarrow> val list \<Rightarrow> mh_event list \<Rightarrow> val list option" where
  "MultiHash crc32 inp sched =
     (case mh_exec crc32 (MultiHash_init inp True) sched of
        None \<Rightarrow> None
      | Some s \<Rightarrow> if mh_pc s = AtReturn then Some (mh_out s) else None)"

subsection \<open>The pipeline of the three stages\<close>

text \<open>
  Modelled from the spec: the list of jobs is given by the caller of \<open>ExecutePipeline\<close>,
  which is not in signer.go. Section 2 of the spec gives the data flow: integers go to
  \<open>SingleHash\<close>, its strings to \<open>MultiHash\<close>, its strings to \<open>CombineResults\<close>, which
  sends the one final string. \<open>ExecutePipeline\<close> makes the \<open>out\<close> channel of a job the
  \<open>in\<close> channel of the next one and closes it when the job returns, so a stage that
  returns hands the values it sent, in the order of sending, and then the close to the
  next stage. A stage that does not return (it panics, or the schedule stops before its
  end) gives no final string. The schedules of the two concurrent stages are arguments.
\<close>

definition pipeline ::
    "(string \<Rightarrow> string) \<Rightarrow> (string \<Rightarrow> string) \<Rightarrow> val list \<Rightarrow> sh_event list \<Rightarrow> mh_event list \<Rightarrow>
     string option" where
  "pipeline crc32 md5 inp sched1 sched2 =
     (case SingleHash crc32 md5 inp sched1 of
        None \<Rightarrow> None
      | Some out1 \<Rightarrow>
          (case MultiHash crc32 out1 sched2 of
             None \<Rightarrow> None
           | Some out2 \<Rightarrow>
               (case CombineResults out2 True of
                  Returned [StrV res] \<Rightarrow> Some res
                | _ \<Rightarrow> None)))"

text \<open>The type assertions \<open>unit.(int)\<close> and \<open>unit.(string)\<close> succeed on these values.\<close>

fun isInt :: "val \<Rightarrow> bool" where
  "isInt (IntV n) = True"
| "isInt v = False"

fun isString :: "val \<Rightarrow> bool" where
  "isString (StrV x) = True"
| "isString v = False"

subsection \<open>ExecutePipeline\<close>

text \<open>
  \<open>ExecutePipeline\<close> does not look into its jobs: a job is a value of any type \<open>'j\<close>, and
  what the model sees of a running job is that it returns or that it panics. A channel is
  its number in the order of the calls of \<open>make\<close>; the state keeps, for every channel
  made, whether it has been closed. \<open>nil\<close> is \<open>None\<close>.

  The goroutine of lines 84 to 88 and of lines 93 to 97, with its arguments \<open>worker\<close>,
  \<open>chIn\<close>, \<open>chOut\<close>: the job is running, or it has ended and the deferred
  \<open>close(chOut)\<close> is next, or the deferred \<open>wg.Done()\<close> is next, or the goroutine has ended.
  A job ends by returning or by a panic; the deferred calls run in both cases, and
  \<open>panicking\<close> tells which one it is.
\<close>

datatype go_pc = Running | AtClose | AtWgDone | Ended

record 'j ep_worker =
  worker :: 'j
  chIn :: "nat option"
  chOut :: nat
  go_pc :: go_pc
  panicking :: bool

text \<open>
  The function itself: in the loop of line 90 with the jobs still to start and the
  variable \<open>inChan\<close>, at \<open>wg.Wait()\<close> of line 100, or returned.
\<close>

datatype 'j ep_pc = EpLoop "'j list" nat | EpWait | EpReturned

text \<open>
  \<open>ep_crashed\<close>: a panic has reached the top of its goroutine and the program has ended.
\<close>

record 'j ep_state =
  ep_pc :: "'j ep_pc"
  ep_wg :: nat
  ep_chans :: "bool list"
  ep_workers :: "'j ep_worker list"
  ep_crashed :: bool

datatype ep_error = IndexOutOfRange

text \<open>
  Lines 79 to 89. \<open>jobs[0]\<close> on an empty slice is a run-time panic, before any goroutine
  is started. Otherwise the first job is started with \<open>nil\<close> as its input and the channel
  \<open>out\<close> as its output, and \<open>inChan\<close> is \<open>out\<close>.
\<close>

definition ExecutePipeline_start :: "'j list \<Rightarrow> ep_error + 'j ep_state" where
  "ExecutePipeline_start jobs =
     (case jobs of
        [] \<Rightarrow> Inl IndexOutOfRange
      | firstJob # rest \<Rightarrow>
          Inr \<lparr>ep_pc = EpLoop rest 0, ep_wg = 1, ep_chans = [False],
               ep_workers =
                 [\<lparr>worker = firstJob, chIn = None, chOut = 0, go_pc = Running,
                   panicking = False\<rparr>],
               ep_crashed = False\<rparr>)"

datatype ep_event = EpMain | EpJobReturns nat | EpJobPanics nat | EpGoroutine nat

text \<open>
  Lines 90 to 100: one iteration of the loop (a new channel \<open>outChan\<close>, \<open>wg.Add(1)\<close>, the
  goroutine of the job with \<open>inChan\<close> and \<open>outChan\<close>, \<open>inChan = outChan\<close>), the end of
  the loop, and \<open>wg.Wait()\<close>.
\<close>

definition ep_main_step :: "'j ep_state \<Rightarrow> 'j ep_state option" where
  "ep_main_step s =
     (case ep_pc s of
        EpLoop js inChan \<Rightarrow>
          (case js of
             [] \<Rightarrow> Some (s\<lparr>ep_pc := EpWait\<rparr>)
           | j # rest \<Rightarrow>
               (let outChan = length (ep_chans s) in
                Some (s\<lparr>ep_pc := EpLoop rest outChan, ep_wg := ep_wg s + 1,
                        ep_chans := ep_chans s @ [False],
                        ep_workers := ep_workers s @
                          [\<lparr>worker = j, chIn = Some inChan, chOut = outChan,
                            go_pc = Running, panicking = False\<rparr>]\<rparr>)))
      | EpWait \<Rightarrow> if ep_wg s = 0 then Some (s\<lparr>ep_pc := EpReturned\<rparr>) else None
      | EpReturned \<Rightarrow> None)"

text \<open>
  The job of goroutine \<open>i\<close> returns, or it panics. In both cases the deferred calls of
  lines 85 and 86 (94 and 95) are next, in the reverse order of the \<open>defer\<close> statements.
\<close>

definition ep_job_step :: "'j ep_state \<Rightarrow> nat \<Rightarrow> bool \<Rightarrow> 'j ep_state option" where
  "ep_job_step s i panics =
     (if length (ep_workers s) \<le> i then None
      else
        (let g = ep_workers s ! i in
         case go_pc g of
           Running \<Rightarrow>
             Some (s\<lparr>ep_workers :=
                       (ep_workers s)[i := g\<lparr>go_pc := AtClose, panicking := panics\<rparr>]\<rparr>)
         | _ \<Rightarrow> None))"

text \<open>
  The deferred calls of goroutine \<open>i\<close>: \<open>close(chOut)\<close>, then \<open>wg.Done()\<close>. Closing a
  closed channel is a run-time panic in the deferred call, after which \<open>wg.Done()\<close> is
  still run; a wait group counter below zero is a run-time panic in the last deferred
  call. When the deferred calls of a panicking goroutine are done the program ends.
  Until then the other goroutines run on.
\<close>

definition ep_goroutine_step :: "'j ep_state \<Rightarrow> nat \<Rightarrow> 'j ep_state option" where
  "ep_goroutine_step s i =
     (if length (ep_workers s) \<le> i then None
      else
        (let g = ep_workers s ! i in
         case go_pc g of
           Running \<Rightarrow> None
         | AtClose \<Rightarrow>
             if length (ep_chans s) \<le> chOut g \<or> ep_chans s ! chOut g
             then Some (s\<lparr>ep_workers :=
                            (ep_workers s)[i := g\<lparr>go_pc := AtWgDone, panicking := True\<rparr>]\<rparr>)
             else Some (s\<lparr>ep_chans := (ep_chans s)[chOut g := True],
                          ep_workers := (ep_workers s)[i := g\<lparr>go_pc := AtWgDone\<rparr>]\<rparr>)
         | AtWgDone \<Rightarrow>
             if ep_wg s = 0 then Some (s\<lparr>ep_crashed := True\<rparr>)
             else Some (s\<lparr>ep_wg := ep_wg s - 1,
                          ep_workers := (ep_workers s)[i := g\<lparr>go_pc := Ended\<rparr>],
                          ep_crashed := panicking g\<rparr>)
         | Ended \<Rightarrow> None))"

text \<open>Nothing moves once the program has ended.\<close>

definition ep_step :: "'j ep_state \<Rightarrow> ep_event \<Rightarrow> 'j ep_state option" where
  "ep_step s ev =
     (if ep_crashed s then None
      else
        (case ev of
           EpMain \<Rightarrow> ep_main_step s
         | EpJobReturns i \<Rightarrow> ep_job_step s i False
         | EpJobPanics i \<Rightarrow> ep_job_step s i True
         | EpGoroutine i \<Rightarrow> ep_goroutine_step s i))"

fun ep_exec :: "'j ep_state \<Rightarrow> ep_event list \<Rightarrow> 'j ep_state option" where
  "ep_exec s [] = Some s"
| "ep_exec s (ev # evs) =
     (case ep_step s ev of
        None \<Rightarrow> None
      | Some s' \<Rightarrow> ep_exec s' evs)"

text \<open>\<open>ExecutePipeline(jobs...)\<close> under a schedule.\<close>

definition ExecutePipeline :: "'j list \<Rightarrow> ep_event list \<Rightarrow> ep_error + 'j ep_state option" where
  "ExecutePipeline jobs sched =
     (case ExecutePipeline_start jobs of
        Inl e \<Rightarrow> Inl e
      | Inr s \<Rightarrow> Inr (ep_exec s sched))"







subsection \<open>Quantities of a SingleHash state\<close>

text \<open>
  Which goroutines hold the mutex (from the return of \<open>mu.Lock()\<close> to \<open>mu.Unlock()\<close>),
  which have \<open>DataSignerMd5\<close> running, which have not ended, and which have completed
  their send on \<open>out\<close>.
\<close>

fun holds_mu :: "sh_worker \<Rightarrow> bool" where
  "holds_mu (AtMd5 data) = True"
| "holds_mu (AtUnlock data m) = True"
| "holds_mu w = False"

fun md5_running :: "sh_worker \<Rightarrow> bool" where
  "md5_running (AtMd5 data) = True"
| "md5_running w = False"

fun sh_live :: "sh_worker \<Rightarrow> bool" where
  "sh_live Exited = False"
| "sh_live w = True"

fun sh_sent :: "sh_worker \<Rightarrow> bool" where
  "sh_sent AtDone = True"
| "sh_sent Exited = True"
| "sh_sent w = False"

text \<open>The string of one item: line 32 with the values of lines 26 and 30.\<close>

definition single :: "(string \<Rightarrow> string) \<Rightarrow> (string \<Rightarrow> string) \<Rightarrow> string \<Rightarrow> string" where
  "single crc32 md5 data = crc32 data @ ''~'' @ crc32 (md5 data)"

text \<open>
  What a goroutine will still send on \<open>out\<close>, computed from the values it holds, and what
  the values still to be received will give rise to.
\<close>

fun sh_pending :: "(string \<Rightarrow> string) \<Rightarrow> (string \<Rightarrow> string) \<Rightarrow> sh_worker \<Rightarrow> val multiset" where
  "sh_pending crc32 md5 (AtLock data) = {#StrV (single crc32 md5 data)#}"
| "sh_pending crc32 md5 (AtMd5 data) = {#StrV (single crc32 md5 data)#}"
| "sh_pending crc32 md5 (AtUnlock data m) = {#StrV (crc32 data @ ''~'' @ crc32 m)#}"
| "sh_pending crc32 md5 (AtGo data m) = {#StrV (crc32 data @ ''~'' @ crc32 m)#}"
| "sh_pending crc32 md5 (AtCrc data (SubCall m)) = {#StrV (crc32 data @ ''~'' @ crc32 m)#}"
| "sh_pending crc32 md5 (AtCrc data (SubSend v)) = {#StrV (crc32 data @ ''~'' @ v)#}"
| "sh_pending crc32 md5 (AtRecv c (SubCall m)) = {#StrV (c @ ''~'' @ crc32 m)#}"
| "sh_pending crc32 md5 (AtRecv c (SubSend v)) = {#StrV (c @ ''~'' @ v)#}"
| "sh_pending crc32 md5 (AtSend res) = {#StrV res#}"
| "sh_pending crc32 md5 AtDone = {#}"
| "sh_pending crc32 md5 Exited = {#}"

fun sh_expected :: "(string \<Rightarrow> string) \<Rightarrow> (string \<Rightarrow> string) \<Rightarrow> val list \<Rightarrow> val multiset" where
  "sh_expected crc32 md5 [] = {#}"
| "sh_expected crc32 md5 (IntV n # rest) =
     add_mset (StrV (single crc32 md5 (Itoa n))) (sh_expected crc32 md5 rest)"
| "sh_expected crc32 md5 (v # rest) = sh_expected crc32 md5 rest"

definition sh_inv :: "(string \<Rightarrow> string) \<Rightarrow> (string \<Rightarrow> string) \<Rightarrow> val multiset \<Rightarrow> sh_state \<Rightarrow> bool" where
  "sh_inv crc32 md5 T s \<longleftrightarrow>
     length (filter holds_mu (sh_workers s)) = (if sh_mu s then 1 else 0) \<and>
     length (filter sh_live (sh_workers s)) = sh_wg s \<and>
     length (filter sh_sent (sh_workers s)) = length (sh_out s) \<and>
     sum_list (map (sh_pending crc32 md5) (sh_workers s)) + mset (sh_out s)
       + sh_expected crc32 md5 (sh_in s) = T \<and>
     (sh_pc s = AtWait \<or> sh_pc s = AtReturn \<longrightarrow> sh_in s = []) \<and>
     (sh_pc s = AtReturn \<longrightarrow> sh_wg s = 0)"

subsection \<open>Quantities of a MultiHash state\<close>

text \<open>
  The string of one item: the digests of the six salted copies of \<open>data\<close>, in the order
  of the index.
\<close>

definition multi :: "(string \<Rightarrow> string) \<Rightarrow> string \<Rightarrow> string" where
  "multi crc32 data = concat (map (\<lambda>i. crc32 (Itoa (int i) @ data)) [0..<numHashes])"

text \<open>
  Which goroutines of items have not ended, which have completed their send on \<open>out\<close>,
  what a goroutine will still send, and what the values still to be received will give
  rise to.
\<close>

fun mw_live :: "mh_worker \<Rightarrow> bool" where
  "mw_live w = (mw_pc w \<noteq> MExited)"

fun mw_sent :: "mh_worker \<Rightarrow> bool" where
  "mw_sent w = (mw_pc w = MDone \<or> mw_pc w = MExited)"

definition mh_pending :: "(string \<Rightarrow> string) \<Rightarrow> mh_worker \<Rightarrow> val multiset" where
  "mh_pending crc32 w = (if mw_sent w then {#} else {#StrV (multi crc32 (mw_data w))#})"

fun mh_expected :: "(string \<Rightarrow> string) \<Rightarrow> val list \<Rightarrow> val multiset" where
  "mh_expected crc32 [] = {#}"
| "mh_expected crc32 (StrV data # rest) = add_mset (StrV (multi crc32 data)) (mh_expected crc32 rest)"
| "mh_expected crc32 (v # rest) = mh_expected crc32 rest"

text \<open>
  The state of the goroutine for index \<open>j\<close> agrees with slot \<open>j\<close> of \<open>multiRes\<close>: once
  line 55 is done the slot holds the digest for that index. \<open>started\<close> is the number of
  goroutines that the loop of line 52 has started.
\<close>

fun slot_ok :: "(string \<Rightarrow> string) \<Rightarrow> string \<Rightarrow> string list \<Rightarrow> nat \<Rightarrow> mh_inner \<Rightarrow> bool" where
  "slot_ok crc32 data res j (InCall k) = (k = j)"
| "slot_ok crc32 data res j InDone = (res ! j = crc32 (Itoa (int j) @ data))"
| "slot_ok crc32 data res j InExited = (res ! j = crc32 (Itoa (int j) @ data))"

fun started :: "mh_point \<Rightarrow> nat" where
  "started (MFor k) = k"
| "started pc = numHashes"

definition mw_ok :: "(string \<Rightarrow> string) \<Rightarrow> mh_worker \<Rightarrow> bool" where
  "mw_ok crc32 w \<longleftrightarrow>
     length (mw_multiRes w) = numHashes \<and>
     length (mw_inner w) \<le> numHashes \<and>
     length (mw_inner w) = started (mw_pc w) \<and>
     (\<forall>j < length (mw_inner w). slot_ok crc32 (mw_data w) (mw_multiRes w) j (mw_inner w ! j)) \<and>
     mw_wgIn w + length (filter (\<lambda>x. x = InExited) (mw_inner w)) = numHashes \<and>
     (mw_sent w \<or> mw_pc w = MSend \<longrightarrow> mw_wgIn w = 0)"

definition mh_inv :: "(string \<Rightarrow> string) \<Rightarrow> val multiset \<Rightarrow> mh_state \<Rightarrow> bool" where
  "mh_inv crc32 T s \<longleftrightarrow>
     list_all (mw_ok crc32) (mh_workers s) \<and>
     length (filter mw_live (mh_workers s)) = mh_wg s \<and>
     length (filter mw_sent (mh_workers s)) = length (mh_out s) \<and>
     sum_list (map (mh_pending crc32) (mh_workers s)) + mset (mh_out s)
       + mh_expected crc32 (mh_in s) = T \<and>
     (mh_pc s = AtWait \<or> mh_pc s = AtReturn \<longrightarrow> mh_in s = []) \<and>
     (mh_pc s = AtReturn \<longrightarrow> mh_wg s = 0)"

text \<open>
  Where a stage is on an input whose first value of the wrong type is \<open>bad\<close>, after the
  values \<open>ns\<close> and before the values \<open>rest\<close>: still in its loop with \<open>bad\<close> ahead, or
  panicked with exactly \<open>rest\<close> left unread.
\<close>

definition sh_mismatch :: "int list \<Rightarrow> val \<Rightarrow> val list \<Rightarrow> sh_state \<Rightarrow> bool" where
  "sh_mismatch ns bad rest s \<longleftrightarrow>
     (sh_pc s = AtRange \<and> (\<exists>k\<le>length ns. sh_in s = map IntV (drop k ns) @ bad # rest)) \<or>
     (sh_pc s = AtPanic \<and> sh_in s = rest)"

definition mh_mismatch :: "string list \<Rightarrow> val \<Rightarrow> val list \<Rightarrow> mh_state \<Rightarrow> bool" where
  "mh_mismatch ds bad rest s \<longleftrightarrow>
     (mh_pc s = AtRange \<and> (\<exists>k\<le>length ds. mh_in s = map StrV (drop k ds) @ bad # rest)) \<or>
     (mh_pc s = AtPanic \<and> mh_in s = rest)"

subsection \<open>Steps that remain\<close>

text \<open>
  An upper bound on the steps a goroutine of \<open>SingleHash\<close> can still take, and the same
  for the loop of a stage and for the whole state, with ten steps for each value still to
  be received (the receive and the nine steps of its goroutine and of the second one).
\<close>

fun sub_rem :: "sh_sub \<Rightarrow> nat" where
  "sub_rem (SubCall m) = 1"
| "sub_rem (SubSend v) = 0"

fun sh_rem :: "sh_worker \<Rightarrow> nat" where
  "sh_rem (AtLock data) = 9"
| "sh_rem (AtMd5 data) = 8"
| "sh_rem (AtUnlock data m) = 7"
| "sh_rem (AtGo data m) = 6"
| "sh_rem (AtCrc data sub) = 4 + sub_rem sub"
| "sh_rem (AtRecv c sub) = 3 + sub_rem sub"
| "sh_rem (AtSend res) = 2"
| "sh_rem AtDone = 1"
| "sh_rem Exited = 0"

fun pc_rem :: "stage_pc \<Rightarrow> nat" where
  "pc_rem AtRange = 3"
| "pc_rem AtWait = 2"
| "pc_rem AtReturn = 1"
| "pc_rem AtPanic = 0"

definition sh_measure :: "sh_state \<Rightarrow> nat" where
  "sh_measure s = pc_rem (sh_pc s) + 10 * length (sh_in s) + sum_list (map sh_rem (sh_workers s))"

text \<open>
  A state of \<open>SingleHash\<close> on the way of a run without a panic whose remaining input
  holds integers only.
\<close>

definition sh_good :: "(string \<Rightarrow> string) \<Rightarrow> (string \<Rightarrow> string) \<Rightarrow> val multiset \<Rightarrow> sh_state \<Rightarrow> bool" where
  "sh_good crc32 md5 T s \<longleftrightarrow>
     sh_inv crc32 md5 T s \<and> sh_pc s \<noteq> AtPanic \<and> list_all isInt (sh_in s)"

text \<open>
  The same for \<open>MultiHash\<close>: two steps for each of the six goroutines, three steps of
  the loop of line 52 for each goroutine still to start, and twenty-three steps for each
  value still to be received.
\<close>

fun in_rem :: "mh_inner \<Rightarrow> nat" where
  "in_rem (InCall k) = 2"
| "in_rem InDone = 1"
| "in_rem InExited = 0"

fun pt_rem :: "mh_point \<Rightarrow> nat" where
  "pt_rem (MFor k) = 3 * (numHashes - k) + 4"
| "pt_rem MWait = 3"
| "pt_rem MSend = 2"
| "pt_rem MDone = 1"
| "pt_rem MExited = 0"

definition mw_rem :: "mh_worker \<Rightarrow> nat" where
  "mw_rem w = pt_rem (mw_pc w) + sum_list (map in_rem (mw_inner w))"

definition mh_measure :: "mh_state \<Rightarrow> nat" where
  "mh_measure s = pc_rem (mh_pc s) + 23 * length (mh_in s) + sum_list (map mw_rem (mh_workers s))"

definition mh_good :: "(string \<Rightarrow> string) \<Rightarrow> val multiset \<Rightarrow> mh_state \<Rightarrow> bool" where
  "mh_good crc32 T s \<longleftrightarrow>
     mh_inv crc32 T s \<and> mh_pc s \<noteq> AtPanic \<and> list_all isString (mh_in s)"

text \<open>Stand-ins for the two digest functions, for concrete runs.\<close>

definition crc_stub :: "string \<Rightarrow> string" where
  "crc_stub x = ''c'' @ x"

definition md5_stub :: "string \<Rightarrow> string" where
  "md5_stub x = ''m'' @ x"

section \<open>Properties\<close>

subsection \<open>CombineResults\<close>

lemma CombineResults_loop_strings:
  "CombineResults_loop acc (map StrV xs) closed =
     (if closed then Returned [StrV (Join (Strings (acc @ xs)) ''_'')] else Blocked [])"
  by (induction xs arbitrary: acc) simp_all

lemma Strings_sorted_perm:
  "sorted (Strings xs) \<and> mset (Strings xs) = mset xs"
  by (simp add: Strings_def)

lemma Strings_unique:
  "sorted ys \<Longrightarrow> mset ys = mset xs \<Longrightarrow> ys = Strings xs"
  unfolding Strings_def
  by (metis properties_for_sort)

text \<open>
  C3. While its input channel is open \<open>CombineResults\<close> has sent nothing, whatever
  strings it received. Once the channel is closed it returns having sent exactly one
  value: the received strings in increasing byte-wise lexicographic order (a sorted
  permutation of them), joined with \<open>_\<close>.
\<close>

theorem CombineResults_barrier_sorted_join:
  "CombineResults (map StrV xs) False = Blocked [] \<and>
   (\<exists>ys. sorted ys \<and> mset ys = mset xs \<and>
         CombineResults (map StrV xs) True = Returned [StrV (Join ys ''_'')])"
proof -
  have "CombineResults (map StrV xs) False = Blocked []"
    by (simp add: CombineResults_def CombineResults_loop_strings)
  moreover have "sorted (Strings xs) \<and> mset (Strings xs) = mset xs \<and>
      CombineResults (map StrV xs) True = Returned [StrV (Join (Strings xs) ''_'')]"
    by (simp add: CombineResults_def CombineResults_loop_strings Strings_sorted_perm)
  ultimately show ?thesis by blast
qed

text \<open>
  C10. On an input channel that is closed without any value, \<open>CombineResults\<close> still
  sends one value, the empty string.
\<close>

theorem CombineResults_empty_input:
  "CombineResults [] True = Returned [StrV '''']"
  by (simp add: CombineResults_def Strings_def)


subsection \<open>Lists of goroutines\<close>

lemma filter_update_count:
  "i < length xs \<Longrightarrow>
   length (filter P (xs[i := y])) + (if P (xs ! i) then 1 else 0) =
     length (filter P xs) + (if P y then 1 else 0)"
proof (induction xs arbitrary: i)
  case Nil
  then show ?case by simp
next
  case (Cons x xs)
  show ?case
  proof (cases i)
    case 0
    then show ?thesis by simp
  next
    case (Suc j)
    with Cons.prems have j: "j < length xs" by simp
    show ?thesis using Suc Cons.IH [OF j] by simp
  qed
qed

lemma sum_list_map_update:
  fixes f :: "'a \<Rightarrow> 'b::comm_monoid_add"
  shows "i < length xs \<Longrightarrow>
    sum_list (map f (xs[i := y])) + f (xs ! i) = sum_list (map f xs) + f y"
proof (induction xs arbitrary: i)
  case Nil
  then show ?case by simp
next
  case (Cons x xs)
  show ?case
  proof (cases i)
    case 0
    then show ?thesis by (simp add: ac_simps)
  next
    case (Suc j)
    with Cons.prems have j: "j < length xs" by simp
    show ?thesis using Suc Cons.IH [OF j] by (simp add: ac_simps)
  qed
qed



lemma filter_count_mono:
  "(\<And>x. P x \<Longrightarrow> Q x) \<Longrightarrow> length (filter P xs) \<le> length (filter Q xs)"
  by (induction xs) auto

subsection \<open>The invariant of SingleHash\<close>

lemma sh_inv_init: "sh_inv crc32 md5 (sh_expected crc32 md5 inp) (SingleHash_init inp closed)"
  by (simp add: sh_inv_def SingleHash_init_def)

lemma sh_main_step_inv:
  assumes "sh_inv crc32 md5 T s" and "sh_main_step s = Some s'"
  shows "sh_inv crc32 md5 T s'"
  using assms
  by (auto simp: sh_inv_def sh_main_step_def split: stage_pc.splits list.splits val.splits if_splits)


lemma sh_pending_update:
  assumes "i < length ws"
    and "sh_pending crc32 md5 y + ob = sh_pending crc32 md5 (ws ! i) + oa"
  shows "sum_list (map (sh_pending crc32 md5) (ws[i := y])) + ob =
         sum_list (map (sh_pending crc32 md5) ws) + oa"
proof -
  let ?f = "sh_pending crc32 md5"
  have "sum_list (map ?f (ws[i := y])) + ?f (ws ! i) = sum_list (map ?f ws) + ?f y"
    by (rule sum_list_map_update [OF assms(1)])
  then have "sum_list (map ?f (ws[i := y])) + ob + ?f (ws ! i) =
             sum_list (map ?f ws) + oa + ?f (ws ! i)"
    using assms(2) by (simp add: ac_simps)
  then show ?thesis by simp
qed

lemma sh_sub_step_inv:
  assumes inv: "sh_inv crc32 md5 T s" and st: "sh_sub_step crc32 s i = Some s'"
  shows "sh_inv crc32 md5 T s'"
proof -
  let ?ws = "sh_workers s"
  from st have i: "i < length ?ws"
    by (auto simp: sh_sub_step_def split: if_splits)
  from st i obtain w' where s': "s' = s\<lparr>sh_workers := ?ws[i := w']\<rparr>"
    and h: "holds_mu w' = holds_mu (?ws ! i)"
    and l: "sh_live w' = sh_live (?ws ! i)"
    and n: "sh_sent w' = sh_sent (?ws ! i)"
    and p: "sh_pending crc32 md5 w' = sh_pending crc32 md5 (?ws ! i)"
    by (auto simp: sh_sub_step_def split: if_splits sh_worker.splits sh_sub.splits)
  have "sum_list (map (sh_pending crc32 md5) (?ws[i := w'])) + mset (sh_out s) =
        sum_list (map (sh_pending crc32 md5) ?ws) + mset (sh_out s)"
    by (rule sh_pending_update [OF i]) (simp add: p)
  moreover have "length (filter holds_mu (?ws[i := w'])) = length (filter holds_mu ?ws)"
    using filter_update_count [OF i, of holds_mu w'] h by simp
  moreover have "length (filter sh_live (?ws[i := w'])) = length (filter sh_live ?ws)"
    using filter_update_count [OF i, of sh_live w'] l by simp
  moreover have "length (filter sh_sent (?ws[i := w'])) = length (filter sh_sent ?ws)"
    using filter_update_count [OF i, of sh_sent w'] n by simp
  ultimately show ?thesis
    using inv by (simp add: sh_inv_def s')
qed

lemma sh_worker_step_inv:
  assumes inv: "sh_inv crc32 md5 T s" and st: "sh_worker_step crc32 md5 s i = Some s'"
  shows "sh_inv crc32 md5 T s'"
proof -
  let ?ws = "sh_workers s"
  let ?p = "sh_pending crc32 md5"
  from st have i: "i < length ?ws"
    by (auto simp: sh_worker_step_def split: if_splits)
  note c = filter_update_count [OF i]
  show ?thesis
  proof (cases "?ws ! i")
    case (AtLock data)
    with st i have s': "s' = s\<lparr>sh_mu := True, sh_workers := ?ws[i := AtMd5 data]\<rparr>"
      and mu: "\<not> sh_mu s"
      by (auto simp: sh_worker_step_def split: if_splits)
    have "sum_list (map ?p (?ws[i := AtMd5 data])) + mset (sh_out s) =
          sum_list (map ?p ?ws) + mset (sh_out s)"
      by (rule sh_pending_update [OF i]) (simp add: AtLock)
    then show ?thesis
      using inv mu c [of holds_mu "AtMd5 data"] c [of sh_live "AtMd5 data"]
        c [of sh_sent "AtMd5 data"]
      by (simp add: sh_inv_def s' AtLock)
  next
    case (AtMd5 data)
    with st i have s': "s' = s\<lparr>sh_workers := ?ws[i := AtUnlock data (md5 data)]\<rparr>"
      by (auto simp: sh_worker_step_def split: if_splits)
    have "sum_list (map ?p (?ws[i := AtUnlock data (md5 data)])) + mset (sh_out s) =
          sum_list (map ?p ?ws) + mset (sh_out s)"
      by (rule sh_pending_update [OF i]) (simp add: AtMd5 single_def)
    then show ?thesis
      using inv c [of holds_mu "AtUnlock data (md5 data)"]
        c [of sh_live "AtUnlock data (md5 data)"] c [of sh_sent "AtUnlock data (md5 data)"]
      by (simp add: sh_inv_def s' AtMd5)
  next
    case (AtUnlock data m)
    show ?thesis
    proof (cases "sh_mu s")
      case True
      with AtUnlock st i have s': "s' = s\<lparr>sh_mu := False, sh_workers := ?ws[i := AtGo data m]\<rparr>"
        by (auto simp: sh_worker_step_def split: if_splits)
      have "sum_list (map ?p (?ws[i := AtGo data m])) + mset (sh_out s) =
            sum_list (map ?p ?ws) + mset (sh_out s)"
        by (rule sh_pending_update [OF i]) (simp add: AtUnlock)
      then show ?thesis
        using inv True c [of holds_mu "AtGo data m"] c [of sh_live "AtGo data m"]
          c [of sh_sent "AtGo data m"]
        by (simp add: sh_inv_def s' AtUnlock)
    next
      case False
      with AtUnlock st i have s': "s' = s\<lparr>sh_pc := AtPanic\<rparr>"
        by (auto simp: sh_worker_step_def split: if_splits)
      show ?thesis using inv by (simp add: sh_inv_def s')
    qed
  next
    case (AtGo data m)
    with st i have s': "s' = s\<lparr>sh_workers := ?ws[i := AtCrc data (SubCall m)]\<rparr>"
      by (auto simp: sh_worker_step_def split: if_splits)
    have "sum_list (map ?p (?ws[i := AtCrc data (SubCall m)])) + mset (sh_out s) =
          sum_list (map ?p ?ws) + mset (sh_out s)"
      by (rule sh_pending_update [OF i]) (simp add: AtGo)
    then show ?thesis
      using inv c [of holds_mu "AtCrc data (SubCall m)"]
        c [of sh_live "AtCrc data (SubCall m)"] c [of sh_sent "AtCrc data (SubCall m)"]
      by (simp add: sh_inv_def s' AtGo)
  next
    case (AtCrc data sub)
    with st i have s': "s' = s\<lparr>sh_workers := ?ws[i := AtRecv (crc32 data) sub]\<rparr>"
      by (auto simp: sh_worker_step_def split: if_splits)
    have "sum_list (map ?p (?ws[i := AtRecv (crc32 data) sub])) + mset (sh_out s) =
          sum_list (map ?p ?ws) + mset (sh_out s)"
      by (rule sh_pending_update [OF i]) (cases sub; simp add: AtCrc)
    then show ?thesis
      using inv c [of holds_mu "AtRecv (crc32 data) sub"]
        c [of sh_live "AtRecv (crc32 data) sub"] c [of sh_sent "AtRecv (crc32 data) sub"]
      by (simp add: sh_inv_def s' AtCrc)
  next
    case (AtRecv cd sub)
    with st i obtain v where sub: "sub = SubSend v"
      and s': "s' = s\<lparr>sh_workers := ?ws[i := AtSend (cd @ ''~'' @ v)]\<rparr>"
      by (auto simp: sh_worker_step_def split: if_splits sh_sub.splits)
    have "sum_list (map ?p (?ws[i := AtSend (cd @ ''~'' @ v)])) + mset (sh_out s) =
          sum_list (map ?p ?ws) + mset (sh_out s)"
      by (rule sh_pending_update [OF i]) (simp add: AtRecv sub)
    then show ?thesis
      using inv c [of holds_mu "AtSend (cd @ ''~'' @ v)"]
        c [of sh_live "AtSend (cd @ ''~'' @ v)"] c [of sh_sent "AtSend (cd @ ''~'' @ v)"]
      by (simp add: sh_inv_def s' AtRecv)
  next
    case (AtSend res)
    with st i have s': "s' = s\<lparr>sh_out := sh_out s @ [StrV res], sh_workers := ?ws[i := AtDone]\<rparr>"
      by (auto simp: sh_worker_step_def split: if_splits)
    have pe: "sum_list (map ?p (?ws[i := AtDone])) + mset (sh_out s @ [StrV res]) =
          sum_list (map ?p ?ws) + mset (sh_out s)"
      by (rule sh_pending_update [OF i]) (simp add: AtSend)
    from inv have "sum_list (map ?p ?ws) + mset (sh_out s) + sh_expected crc32 md5 (sh_in s) = T"
      by (simp add: sh_inv_def)
    then have "sum_list (map ?p (?ws[i := AtDone])) + mset (sh_out s @ [StrV res])
        + sh_expected crc32 md5 (sh_in s) = T"
      unfolding pe .
    then show ?thesis
      using inv c [of holds_mu AtDone] c [of sh_live AtDone] c [of sh_sent AtDone]
      by (simp add: sh_inv_def s' AtSend)
  next
    case AtDone
    show ?thesis
    proof (cases "sh_wg s = 0")
      case True
      with AtDone st i have s': "s' = s\<lparr>sh_pc := AtPanic\<rparr>"
        by (auto simp: sh_worker_step_def split: if_splits)
      show ?thesis using inv by (simp add: sh_inv_def s')
    next
      case False
      with AtDone st i have s': "s' = s\<lparr>sh_wg := sh_wg s - 1, sh_workers := ?ws[i := Exited]\<rparr>"
        by (auto simp: sh_worker_step_def split: if_splits)
      have "sum_list (map ?p (?ws[i := Exited])) + mset (sh_out s) =
            sum_list (map ?p ?ws) + mset (sh_out s)"
        by (rule sh_pending_update [OF i]) (simp add: AtDone)
      then show ?thesis
        using inv False c [of holds_mu Exited] c [of sh_live Exited] c [of sh_sent Exited]
        by (auto simp: sh_inv_def s' AtDone)
    qed
  next
    case Exited
    with st i show ?thesis
      by (auto simp: sh_worker_step_def split: if_splits)
  qed
qed


lemma sh_step_inv:
  assumes "sh_inv crc32 md5 T s" and "sh_step crc32 md5 s ev = Some s'"
  shows "sh_inv crc32 md5 T s'"
  using assms
  by (cases ev)
     (auto simp: sh_step_def split: if_splits
           intro: sh_main_step_inv sh_worker_step_inv sh_sub_step_inv)

lemma sh_exec_inv:
  assumes "sh_exec crc32 md5 s sched = Some s'" and "sh_inv crc32 md5 T s"
  shows "sh_inv crc32 md5 T s'"
  using assms
proof (induction sched arbitrary: s)
  case Nil
  then show ?case by simp
next
  case (Cons ev sched)
  then show ?case
    by (auto split: option.splits dest: sh_step_inv)
qed

lemma sh_reach_inv:
  assumes "sh_exec crc32 md5 (SingleHash_init inp closed) sched = Some s"
  shows "sh_inv crc32 md5 (sh_expected crc32 md5 inp) s"
  using assms sh_inv_init by (rule sh_exec_inv)

lemma sh_pending_exited:
  "filter sh_live ws = [] \<Longrightarrow> sum_list (map (sh_pending crc32 md5) ws) = {#}"
proof (induction ws)
  case Nil
  then show ?case by simp
next
  case (Cons w ws)
  then show ?case by (cases w) (auto split: if_splits)
qed

lemma sh_expected_ints:
  "sh_expected crc32 md5 (map IntV ns) = mset (map (\<lambda>n. StrV (single crc32 md5 (Itoa n))) ns)"
  by (induction ns) simp_all

lemma sh_returned_out:
  assumes "sh_exec crc32 md5 (SingleHash_init inp closed) sched = Some s"
    and "sh_pc s = AtReturn"
  shows "mset (sh_out s) = sh_expected crc32 md5 inp"
proof -
  have inv: "sh_inv crc32 md5 (sh_expected crc32 md5 inp) s"
    using assms(1) by (rule sh_reach_inv)
  with assms(2) have "length (filter sh_live (sh_workers s)) = 0" and "sh_in s = []"
    by (simp_all add: sh_inv_def)
  then have "sum_list (map (sh_pending crc32 md5) (sh_workers s)) = {#}" "sh_in s = []"
    by (simp_all add: sh_pending_exited)
  with inv show ?thesis by (simp add: sh_inv_def)
qed


lemma sh_exec_suffix:
  assumes "sh_exec crc32 md5 s sched = Some s'"
  shows "\<exists>k. k \<le> length (sh_in s) \<and> sh_in s' = drop k (sh_in s)"
  using assms
proof (induction sched arbitrary: s)
  case Nil
  then have "sh_in s' = drop 0 (sh_in s)" by simp
  then show ?case by blast
next
  case (Cons ev sched)
  then obtain s1 where st: "sh_step crc32 md5 s ev = Some s1"
    and ex: "sh_exec crc32 md5 s1 sched = Some s'"
    by (auto split: option.splits)
  from st have d: "sh_in s1 = sh_in s \<or> (sh_in s \<noteq> [] \<and> sh_in s1 = tl (sh_in s))"
    by (cases ev)
       (auto simp: sh_step_def sh_main_step_def sh_worker_step_def sh_sub_step_def
             split: if_splits stage_pc.splits list.splits val.splits sh_worker.splits
               sh_sub.splits)
  from Cons.IH [OF ex] obtain k where k: "k \<le> length (sh_in s1)"
    "sh_in s' = drop k (sh_in s1)" by blast
  from d show ?case
  proof
    assume "sh_in s1 = sh_in s"
    with k show ?thesis by auto
  next
    assume a: "sh_in s \<noteq> [] \<and> sh_in s1 = tl (sh_in s)"
    then obtain v where "sh_in s = v # sh_in s1"
      by (cases "sh_in s") auto
    with k have "Suc k \<le> length (sh_in s)" "sh_in s' = drop (Suc k) (sh_in s)"
      by auto
    then show ?thesis by blast
  qed
qed

lemma sh_expected_append:
  "sh_expected crc32 md5 (xs @ ys) = sh_expected crc32 md5 xs + sh_expected crc32 md5 ys"
proof (induction xs)
  case Nil
  then show ?case by simp
next
  case (Cons v xs)
  then show ?case by (cases v) simp_all
qed

lemma Itoa_digit:
  "Itoa 0 = ''0''" "Itoa 1 = ''1''" "Itoa 2 = ''2''" "Itoa 3 = ''3''" "Itoa 4 = ''4''"
  "Itoa 5 = ''5''" "Itoa 6 = ''6''" "Itoa 7 = ''7''" "Itoa 8 = ''8''" "Itoa 9 = ''9''"
  by (simp_all add: Itoa_def nat_digits.simps digit_def)

lemmas sh_eval =
  SingleHash_init_def sh_step_def sh_main_step_def sh_worker_step_def sh_sub_step_def
  Itoa_digit crc_stub_def md5_stub_def

subsection \<open>SingleHash: the mutex around DataSignerMd5\<close>

text \<open>
  C5. In every state that \<open>SingleHash\<close> reaches, on any input and under any schedule,
  at most one of its goroutines has a call of \<open>DataSignerMd5\<close> running, however many
  items are in work.
\<close>

theorem DataSignerMd5_never_overlaps:
  assumes "sh_exec crc32 md5 (SingleHash_init inp closed) sched = Some s"
  shows "length (filter md5_running (sh_workers s)) \<le> 1"
proof -
  have "sh_inv crc32 md5 (sh_expected crc32 md5 inp) s"
    using assms by (rule sh_reach_inv)
  then have "length (filter holds_mu (sh_workers s)) \<le> 1"
    by (simp add: sh_inv_def)
  moreover have "length (filter md5_running (sh_workers s)) \<le> length (filter holds_mu (sh_workers s))"
  proof (rule filter_count_mono)
    fix w show "md5_running w \<Longrightarrow> holds_mu w" by (cases w) simp_all
  qed
  ultimately show ?thesis by simp
qed

text \<open>
  Two items in work at once: the goroutine of the first has the call running, the
  goroutine of the second cannot pass \<open>mu.Lock()\<close>.
\<close>

theorem DataSignerMd5_never_overlaps_witness:
  "sh_exec crc_stub md5_stub (SingleHash_init [IntV 1, IntV 2] False)
     [ShMain, ShMain, ShWorker 0] =
     Some \<lparr>sh_in = [], sh_closed = False, sh_pc = AtRange, sh_wg = 2, sh_mu = True,
           sh_workers = [AtMd5 ''1'', AtLock ''2''], sh_out = []\<rparr> \<and>
   length (filter md5_running [AtMd5 ''1'', AtLock ''2'']) \<le> 1 \<and>
   sh_step crc_stub md5_stub
     \<lparr>sh_in = [], sh_closed = False, sh_pc = AtRange, sh_wg = 2, sh_mu = True,
           sh_workers = [AtMd5 ''1'', AtLock ''2''], sh_out = []\<rparr> (ShWorker 1) = None"
proof -
  let ?s = "\<lparr>sh_in = [], sh_closed = False, sh_pc = AtRange, sh_wg = 2, sh_mu = True,
           sh_workers = [AtMd5 ''1'', AtLock ''2''], sh_out = []\<rparr>"
  have run: "sh_exec crc_stub md5_stub (SingleHash_init [IntV 1, IntV 2] False)
     [ShMain, ShMain, ShWorker 0] = Some ?s"
    by (simp add: sh_eval)
  have blocked: "sh_step crc_stub md5_stub ?s (ShWorker 1) = None"
    by (simp add: sh_eval)
  have "length (filter md5_running [AtMd5 ''1'', AtLock ''2'']) \<le> 1"
    using DataSignerMd5_never_overlaps [OF run] by simp
  with run blocked show ?thesis by blast
qed

subsection \<open>The invariant of a goroutine of MultiHash\<close>

lemma slot_ok_update:
  "j' \<noteq> j \<Longrightarrow> slot_ok crc32 data (res[j := v]) j' x = slot_ok crc32 data res j' x"
  by (cases x) simp_all

lemma mw_ok_spawn: "mw_ok crc32 (mh_spawn data)"
  by (simp add: mw_ok_def mh_spawn_def)

lemma mw_ok_for:
  assumes "mw_ok crc32 w" and "mw_pc w = MFor k" and "k < numHashes"
  shows "mw_ok crc32 (w\<lparr>mw_pc := MFor (k + 1), mw_inner := mw_inner w @ [InCall k]\<rparr>)"
  using assms
  by (auto simp: mw_ok_def nth_append less_Suc_eq)

lemma mw_ok_for_exit:
  assumes "mw_ok crc32 w" and "mw_pc w = MFor k" and "\<not> k < numHashes"
  shows "mw_ok crc32 (w\<lparr>mw_pc := MWait\<rparr>)"
  using assms
  by (auto simp: mw_ok_def)

lemma mw_ok_wait:
  assumes "mw_ok crc32 w" and "mw_pc w = MWait" and "mw_wgIn w = 0"
  shows "mw_ok crc32 (w\<lparr>mw_pc := MSend\<rparr>)"
  using assms
  by (auto simp: mw_ok_def)

lemma mw_ok_send:
  assumes "mw_ok crc32 w" and "mw_pc w = MSend"
  shows "mw_ok crc32 (w\<lparr>mw_pc := MDone\<rparr>)"
  using assms
  by (auto simp: mw_ok_def)

lemma mw_ok_done:
  assumes "mw_ok crc32 w" and "mw_pc w = MDone"
  shows "mw_ok crc32 (w\<lparr>mw_pc := MExited\<rparr>)"
  using assms
  by (auto simp: mw_ok_def)

lemma mw_ok_call:
  assumes ok: "mw_ok crc32 w" and j: "j < length (mw_inner w)" and c: "mw_inner w ! j = InCall k"
  shows "k = j" and "k < length (mw_multiRes w)"
    and "mw_ok crc32 (w\<lparr>mw_multiRes := (mw_multiRes w)[k := crc32 (Itoa (int k) @ mw_data w)],
                         mw_inner := (mw_inner w)[j := InDone]\<rparr>)"
proof -
  from ok j c show kj: "k = j"
    by (auto simp: mw_ok_def)
  from ok j kj show kl: "k < length (mw_multiRes w)"
    by (simp add: mw_ok_def)
  have f: "length (filter (\<lambda>x. x = InExited) ((mw_inner w)[j := InDone])) =
           length (filter (\<lambda>x. x = InExited) (mw_inner w))"
    using filter_update_count [OF j, of "\<lambda>x. x = InExited" InDone] c by simp
  have s: "slot_ok crc32 (mw_data w) ((mw_multiRes w)[k := crc32 (Itoa (int k) @ mw_data w)]) j'
             ((mw_inner w)[j := InDone] ! j')"
    if "j' < length (mw_inner w)" for j'
  proof (cases "j' = j")
    case True
    with j kj kl show ?thesis by simp
  next
    case False
    from ok that have "slot_ok crc32 (mw_data w) (mw_multiRes w) j' (mw_inner w ! j')"
      by (simp add: mw_ok_def)
    with False kj show ?thesis by (simp add: slot_ok_update)
  qed
  from ok f s show "mw_ok crc32 (w\<lparr>mw_multiRes := (mw_multiRes w)[k := crc32 (Itoa (int k) @ mw_data w)],
                         mw_inner := (mw_inner w)[j := InDone]\<rparr>)"
    by (simp add: mw_ok_def)
qed

lemma mw_ok_inner_done:
  assumes ok: "mw_ok crc32 w" and j: "j < length (mw_inner w)" and c: "mw_inner w ! j = InDone"
  shows "mw_wgIn w \<noteq> 0"
    and "mw_ok crc32 (w\<lparr>mw_wgIn := mw_wgIn w - 1, mw_inner := (mw_inner w)[j := InExited]\<rparr>)"
proof -
  have f: "length (filter (\<lambda>x. x = InExited) ((mw_inner w)[j := InExited])) =
           Suc (length (filter (\<lambda>x. x = InExited) (mw_inner w)))"
    using filter_update_count [OF j, of "\<lambda>x. x = InExited" InExited] c by simp
  have "length (filter (\<lambda>x. x = InExited) ((mw_inner w)[j := InExited])) \<le> length (mw_inner w)"
    by (metis length_filter_le length_list_update)
  with f ok show n: "mw_wgIn w \<noteq> 0"
    by (auto simp: mw_ok_def)
  have s: "slot_ok crc32 (mw_data w) (mw_multiRes w) j' ((mw_inner w)[j := InExited] ! j')"
    if "j' < length (mw_inner w)" for j'
  proof -
    from ok that have "slot_ok crc32 (mw_data w) (mw_multiRes w) j' (mw_inner w ! j')"
      by (simp add: mw_ok_def)
    with c that show ?thesis by (cases "j' = j") auto
  qed
  from ok f s n show "mw_ok crc32 (w\<lparr>mw_wgIn := mw_wgIn w - 1, mw_inner := (mw_inner w)[j := InExited]\<rparr>)"
    by (auto simp: mw_ok_def)
qed

lemma Join_no_sep: "Join xs [] = concat xs"
  by (induction xs "[] :: string" rule: Join.induct) simp_all

lemma mw_ok_result:
  assumes ok: "mw_ok crc32 w" and z: "mw_wgIn w = 0"
  shows "Join (mw_multiRes w) [] = multi crc32 (mw_data w)"
proof -
  from ok z have n: "length (filter (\<lambda>x. x = InExited) (mw_inner w)) = numHashes"
    and l: "length (mw_inner w) = numHashes"
    using length_filter_le [of "\<lambda>x. x = InExited" "mw_inner w"]
    by (auto simp: mw_ok_def)
  have all: "x = InExited" if "x \<in> set (mw_inner w)" for x
    using that n l length_filter_less [of x "mw_inner w" "\<lambda>x. x = InExited"] by auto
  have "mw_multiRes w ! j = crc32 (Itoa (int j) @ mw_data w)" if "j < numHashes" for j
  proof -
    from that l have "mw_inner w ! j = InExited" by (simp add: all)
    moreover from ok that l have "slot_ok crc32 (mw_data w) (mw_multiRes w) j (mw_inner w ! j)"
      by (simp add: mw_ok_def)
    ultimately show ?thesis by simp
  qed
  moreover from ok have "length (mw_multiRes w) = numHashes" by (simp add: mw_ok_def)
  ultimately have "mw_multiRes w = map (\<lambda>i. crc32 (Itoa (int i) @ mw_data w)) [0..<numHashes]"
    by (intro nth_equalityI) simp_all
  then show ?thesis by (simp add: Join_no_sep multi_def)
qed


subsection \<open>The invariant of MultiHash\<close>

lemma sum_list_update_shift:
  fixes f :: "'a \<Rightarrow> 'b::cancel_comm_monoid_add"
  assumes "i < length ws" and "f y + ob = f (ws ! i) + oa"
  shows "sum_list (map f (ws[i := y])) + ob = sum_list (map f ws) + oa"
proof -
  let ?S' = "sum_list (map f (ws[i := y]))" and ?S = "sum_list (map f ws)"
  have a: "?S' + f (ws ! i) = ?S + f y"
    by (rule sum_list_map_update [OF assms(1)])
  have "?S' + ob + f (ws ! i) = (?S' + f (ws ! i)) + ob"
    by (simp add: ac_simps)
  also have "\<dots> = (?S + f y) + ob"
    by (simp only: a)
  also have "\<dots> = ?S + (f y + ob)"
    by (simp add: ac_simps)
  also have "\<dots> = ?S + (f (ws ! i) + oa)"
    by (simp only: assms(2))
  also have "\<dots> = ?S + oa + f (ws ! i)"
    by (simp add: ac_simps)
  finally show ?thesis by simp
qed

lemma list_all_update:
  "list_all P xs \<Longrightarrow> P y \<Longrightarrow> list_all P (xs[i := y])"
  by (induction xs arbitrary: i) (auto split: nat.splits)

lemma mh_inv_init: "mh_inv crc32 (mh_expected crc32 inp) (MultiHash_init inp closed)"
  by (simp add: mh_inv_def MultiHash_init_def)

lemma mh_spawn_simps: "mw_pc (mh_spawn data) = MFor 0" "mw_data (mh_spawn data) = data"
  by (simp_all add: mh_spawn_def)

lemma mh_main_step_inv:
  assumes "mh_inv crc32 T s" and "mh_main_step s = Some s'"
  shows "mh_inv crc32 T s'"
  using assms
  by (auto simp: mh_inv_def mh_main_step_def mw_ok_spawn mh_pending_def mh_spawn_simps
           split: stage_pc.splits list.splits val.splits if_splits)

text \<open>A step of a goroutine of an item that neither sends nor ends it.\<close>

lemma mh_inv_local:
  assumes inv: "mh_inv crc32 T s" and i: "i < length (mh_workers s)"
    and ok: "mw_ok crc32 w'"
    and d: "mw_data w' = mw_data (mh_workers s ! i)"
    and l: "mw_live w' = mw_live (mh_workers s ! i)"
    and n: "mw_sent w' = mw_sent (mh_workers s ! i)"
  shows "mh_inv crc32 T (s\<lparr>mh_workers := (mh_workers s)[i := w']\<rparr>)"
proof -
  let ?ws = "mh_workers s"
  have "sum_list (map (mh_pending crc32) (?ws[i := w'])) + mset (mh_out s) =
        sum_list (map (mh_pending crc32) ?ws) + mset (mh_out s)"
    by (rule sum_list_update_shift [OF i]) (use d n in \<open>simp add: mh_pending_def\<close>)
  moreover have "length (filter mw_live (?ws[i := w'])) = length (filter mw_live ?ws)"
    using filter_update_count [OF i, of mw_live w'] l by simp
  moreover have "length (filter mw_sent (?ws[i := w'])) = length (filter mw_sent ?ws)"
    using filter_update_count [OF i, of mw_sent w'] n by simp
  moreover have "list_all (mw_ok crc32) (?ws[i := w'])"
    using inv ok by (simp add: mh_inv_def list_all_update)
  ultimately show ?thesis
    using inv by (simp add: mh_inv_def)
qed

lemma mh_inner_step_inv:
  assumes inv: "mh_inv crc32 T s" and st: "mh_inner_step crc32 s i j = Some s'"
  shows "mh_inv crc32 T s' \<and> mh_pc s' = mh_pc s \<and> mh_in s' = mh_in s"
proof -
  let ?ws = "mh_workers s"
  let ?w = "?ws ! i"
  from st have i: "i < length ?ws" and j: "j < length (mw_inner ?w)"
    by (auto simp: mh_inner_step_def Let_def split: if_splits)
  from inv i have ok: "mw_ok crc32 ?w"
    by (simp add: mh_inv_def list_all_length)
  show ?thesis
  proof (cases "mw_inner ?w ! j")
    case (InCall k)
    note c = mw_ok_call [OF ok j InCall]
    let ?w' = "?w\<lparr>mw_multiRes := (mw_multiRes ?w)[k := crc32 (Itoa (int k) @ mw_data ?w)],
                   mw_inner := (mw_inner ?w)[j := InDone]\<rparr>"
    from st i j InCall c(2) have s': "s' = s\<lparr>mh_workers := ?ws[i := ?w']\<rparr>"
      by (simp add: mh_inner_step_def Let_def)
    have "mh_inv crc32 T (s\<lparr>mh_workers := ?ws[i := ?w']\<rparr>)"
      by (rule mh_inv_local [OF inv i c(3)]) simp_all
    then show ?thesis by (simp add: s')
  next
    case InDone
    note c = mw_ok_inner_done [OF ok j InDone]
    let ?w' = "?w\<lparr>mw_wgIn := mw_wgIn ?w - 1, mw_inner := (mw_inner ?w)[j := InExited]\<rparr>"
    from st i j InDone c(1) have s': "s' = s\<lparr>mh_workers := ?ws[i := ?w']\<rparr>"
      by (simp add: mh_inner_step_def Let_def)
    have "mh_inv crc32 T (s\<lparr>mh_workers := ?ws[i := ?w']\<rparr>)"
      by (rule mh_inv_local [OF inv i c(2)]) simp_all
    then show ?thesis by (simp add: s')
  next
    case InExited
    with st i j show ?thesis
      by (simp add: mh_inner_step_def Let_def)
  qed
qed

lemma mh_worker_step_inv:
  assumes inv: "mh_inv crc32 T s" and st: "mh_worker_step s i = Some s'"
  shows "mh_inv crc32 T s' \<and> mh_pc s' = mh_pc s \<and> mh_in s' = mh_in s"
proof -
  let ?ws = "mh_workers s"
  let ?w = "?ws ! i"
  let ?p = "mh_pending crc32"
  from st have i: "i < length ?ws"
    by (auto simp: mh_worker_step_def split: if_splits)
  from inv i have ok: "mw_ok crc32 ?w"
    by (simp add: mh_inv_def list_all_length)
  note c = filter_update_count [OF i]
  show ?thesis
  proof (cases "mw_pc ?w")
    case (MFor k)
    show ?thesis
    proof (cases "k < numHashes")
      case True
      let ?w' = "?w\<lparr>mw_pc := MFor (k + 1), mw_inner := mw_inner ?w @ [InCall k]\<rparr>"
      from st i MFor True have s': "s' = s\<lparr>mh_workers := ?ws[i := ?w']\<rparr>"
        by (simp add: mh_worker_step_def Let_def)
      have "mh_inv crc32 T (s\<lparr>mh_workers := ?ws[i := ?w']\<rparr>)"
        by (rule mh_inv_local [OF inv i mw_ok_for [OF ok MFor True]]) (simp_all add: MFor)
      then show ?thesis by (simp add: s')
    next
      case False
      let ?w' = "?w\<lparr>mw_pc := MWait\<rparr>"
      from st i MFor False have s': "s' = s\<lparr>mh_workers := ?ws[i := ?w']\<rparr>"
        by (simp add: mh_worker_step_def Let_def)
      have "mh_inv crc32 T (s\<lparr>mh_workers := ?ws[i := ?w']\<rparr>)"
        by (rule mh_inv_local [OF inv i mw_ok_for_exit [OF ok MFor False]]) (simp_all add: MFor)
      then show ?thesis by (simp add: s')
    qed
  next
    case MWait
    let ?w' = "?w\<lparr>mw_pc := MSend\<rparr>"
    from st i MWait have z: "mw_wgIn ?w = 0" and s': "s' = s\<lparr>mh_workers := ?ws[i := ?w']\<rparr>"
      by (auto simp: mh_worker_step_def Let_def split: if_splits)
    have "mh_inv crc32 T (s\<lparr>mh_workers := ?ws[i := ?w']\<rparr>)"
      by (rule mh_inv_local [OF inv i mw_ok_wait [OF ok MWait z]]) (simp_all add: MWait)
    then show ?thesis by (simp add: s')
  next
    case MSend
    let ?w' = "?w\<lparr>mw_pc := MDone\<rparr>"
    let ?v = "StrV (Join (mw_multiRes ?w) [])"
    from st i MSend have s': "s' = s\<lparr>mh_out := mh_out s @ [?v], mh_workers := ?ws[i := ?w']\<rparr>"
      by (simp add: mh_worker_step_def Let_def)
    from ok MSend have z: "mw_wgIn ?w = 0" by (simp add: mw_ok_def)
    have v: "?v = StrV (multi crc32 (mw_data ?w))"
      using mw_ok_result [OF ok z] by simp
    have pe: "sum_list (map ?p (?ws[i := ?w'])) + mset (mh_out s @ [?v]) =
              sum_list (map ?p ?ws) + mset (mh_out s)"
      by (rule sum_list_update_shift [OF i]) (simp add: mh_pending_def MSend v)
    from inv have "sum_list (map ?p ?ws) + mset (mh_out s) + mh_expected crc32 (mh_in s) = T"
      by (simp add: mh_inv_def)
    then have tot: "sum_list (map ?p (?ws[i := ?w'])) + mset (mh_out s @ [?v])
        + mh_expected crc32 (mh_in s) = T"
      unfolding pe .
    have "list_all (mw_ok crc32) (?ws[i := ?w'])"
      using inv mw_ok_send [OF ok MSend] by (simp add: mh_inv_def list_all_update)
    with tot show ?thesis
      using inv c [of mw_live ?w'] c [of mw_sent ?w']
      by (simp add: mh_inv_def s' MSend)
  next
    case MDone
    show ?thesis
    proof (cases "mh_wg s = 0")
      case True
      from inv have "length (filter mw_live ?ws) = mh_wg s" by (simp add: mh_inv_def)
      moreover have "?w \<in> set (filter mw_live ?ws)" using i MDone by simp
      ultimately have False using True by (metis length_0_conv empty_iff empty_set)
      then show ?thesis ..
    next
      case False
      let ?w' = "?w\<lparr>mw_pc := MExited\<rparr>"
      from st i MDone False have s': "s' = s\<lparr>mh_wg := mh_wg s - 1, mh_workers := ?ws[i := ?w']\<rparr>"
        by (simp add: mh_worker_step_def Let_def)
      have "sum_list (map ?p (?ws[i := ?w'])) + mset (mh_out s) =
            sum_list (map ?p ?ws) + mset (mh_out s)"
        by (rule sum_list_update_shift [OF i]) (simp add: mh_pending_def MDone)
      moreover have "list_all (mw_ok crc32) (?ws[i := ?w'])"
        using inv mw_ok_done [OF ok MDone] by (simp add: mh_inv_def list_all_update)
      ultimately show ?thesis
        using inv False c [of mw_live ?w'] c [of mw_sent ?w']
        by (auto simp: mh_inv_def s' MDone)
    qed
  next
    case MExited
    with st i show ?thesis
      by (simp add: mh_worker_step_def Let_def)
  qed
qed


lemma mh_step_inv:
  assumes "mh_inv crc32 T s" and "mh_step crc32 s ev = Some s'"
  shows "mh_inv crc32 T s'"
  using assms
  by (cases ev)
     (auto simp: mh_step_def split: if_splits
           dest: mh_main_step_inv mh_worker_step_inv mh_inner_step_inv)

lemma mh_exec_inv:
  assumes "mh_exec crc32 s sched = Some s'" and "mh_inv crc32 T s"
  shows "mh_inv crc32 T s'"
  using assms
proof (induction sched arbitrary: s)
  case Nil
  then show ?case by simp
next
  case (Cons ev sched)
  then show ?case
    by (auto split: option.splits dest: mh_step_inv)
qed

lemma mh_reach_inv:
  assumes "mh_exec crc32 (MultiHash_init inp closed) sched = Some s"
  shows "mh_inv crc32 (mh_expected crc32 inp) s"
  using assms mh_inv_init by (rule mh_exec_inv)

lemma mh_pending_exited:
  "filter mw_live ws = [] \<Longrightarrow> sum_list (map (mh_pending crc32) ws) = {#}"
  by (induction ws) (auto simp: mh_pending_def split: if_splits)

lemma mh_expected_strings:
  "mh_expected crc32 (map StrV ds) = mset (map (\<lambda>d. StrV (multi crc32 d)) ds)"
  by (induction ds) simp_all

lemma mh_expected_append:
  "mh_expected crc32 (xs @ ys) = mh_expected crc32 xs + mh_expected crc32 ys"
proof (induction xs)
  case Nil
  then show ?case by simp
next
  case (Cons v xs)
  then show ?case by (cases v) simp_all
qed

lemma mh_returned_out:
  assumes "mh_exec crc32 (MultiHash_init inp closed) sched = Some s"
    and "mh_pc s = AtReturn"
  shows "mset (mh_out s) = mh_expected crc32 inp"
proof -
  have inv: "mh_inv crc32 (mh_expected crc32 inp) s"
    using assms(1) by (rule mh_reach_inv)
  with assms(2) have "length (filter mw_live (mh_workers s)) = 0" and "mh_in s = []"
    by (simp_all add: mh_inv_def)
  then have "sum_list (map (mh_pending crc32) (mh_workers s)) = {#}" "mh_in s = []"
    by (simp_all add: mh_pending_exited)
  with inv show ?thesis by (simp add: mh_inv_def)
qed

lemma mh_step_in:
  assumes "mh_inv crc32 T s" and "mh_step crc32 s ev = Some s'"
  shows "mh_in s' = mh_in s \<or> (\<exists>v. mh_in s = v # mh_in s')"
proof (cases ev)
  case MhMain
  with assms(2) show ?thesis
    by (auto simp: mh_step_def mh_main_step_def
             split: if_splits stage_pc.splits list.splits val.splits)
next
  case (MhWorker i)
  with assms show ?thesis
    by (auto simp: mh_step_def split: if_splits dest: mh_worker_step_inv)
next
  case (MhInner i j)
  with assms show ?thesis
    by (auto simp: mh_step_def split: if_splits dest: mh_inner_step_inv)
qed

lemma mh_exec_suffix:
  assumes "mh_exec crc32 s sched = Some s'" and "mh_inv crc32 T s"
  shows "\<exists>k. k \<le> length (mh_in s) \<and> mh_in s' = drop k (mh_in s)"
  using assms
proof (induction sched arbitrary: s)
  case Nil
  then have "mh_in s' = drop 0 (mh_in s)" by simp
  then show ?case by blast
next
  case (Cons ev sched)
  then obtain s1 where st: "mh_step crc32 s ev = Some s1"
    and ex: "mh_exec crc32 s1 sched = Some s'"
    by (auto split: option.splits)
  have inv1: "mh_inv crc32 T s1"
    using Cons.prems(2) st by (rule mh_step_inv)
  from Cons.IH [OF ex inv1] obtain k where k: "k \<le> length (mh_in s1)"
    "mh_in s' = drop k (mh_in s1)" by blast
  from mh_step_in [OF Cons.prems(2) st] show ?case
  proof
    assume "mh_in s1 = mh_in s"
    with k show ?thesis by auto
  next
    assume "\<exists>v. mh_in s = v # mh_in s1"
    then obtain v where "mh_in s = v # mh_in s1" ..
    with k have "Suc k \<le> length (mh_in s)" "mh_in s' = drop (Suc k) (mh_in s)"
      by auto
    then show ?thesis by blast
  qed
qed

lemma Itoa_int_digit:
  "Itoa (int 0) = ''0''" "Itoa (int 1) = ''1''" "Itoa (int 2) = ''2''" "Itoa (int 3) = ''3''"
  "Itoa (int 4) = ''4''" "Itoa (int 5) = ''5''"
  by (simp_all add: Itoa_def nat_digits.simps digit_def)

lemma upt_numHashes: "[0..<numHashes] = [0, 1, 2, 3, 4, 5]"
  by (simp add: numHashes_def upt_rec)

lemma multi_unfold:
  "multi crc32 d =
     crc32 (''0'' @ d) @ crc32 (''1'' @ d) @ crc32 (''2'' @ d) @
     crc32 (''3'' @ d) @ crc32 (''4'' @ d) @ crc32 (''5'' @ d)"
  unfolding multi_def upt_numHashes using Itoa_int_digit by simp

subsection \<open>Counting goroutines and values\<close>

lemma sh_exec_panic:
  assumes "sh_pc s = AtPanic" and "sh_exec crc32 md5 s sched = Some s'"
  shows "s' = s"
  using assms by (cases sched) (simp_all add: sh_step_def)

lemma mh_exec_panic:
  assumes "mh_pc s = AtPanic" and "mh_exec crc32 s sched = Some s'"
  shows "s' = s"
  using assms by (cases sched) (simp_all add: mh_step_def)

lemma sh_step_count:
  assumes "sh_step crc32 md5 s ev = Some s'" and "sh_pc s' \<noteq> AtPanic"
  shows "length (sh_workers s') + length (sh_in s') = length (sh_workers s) + length (sh_in s)"
  using assms
  by (cases ev)
     (auto simp: sh_step_def sh_main_step_def sh_worker_step_def sh_sub_step_def
           split: if_splits stage_pc.splits list.splits val.splits sh_worker.splits
             sh_sub.splits)

lemma sh_exec_count:
  assumes "sh_exec crc32 md5 s sched = Some s'" and "sh_pc s' \<noteq> AtPanic"
  shows "length (sh_workers s') + length (sh_in s') = length (sh_workers s) + length (sh_in s)"
  using assms
proof (induction sched arbitrary: s)
  case Nil
  then show ?case by simp
next
  case (Cons ev sched)
  then obtain s1 where st: "sh_step crc32 md5 s ev = Some s1"
    and ex: "sh_exec crc32 md5 s1 sched = Some s'"
    by (auto split: option.splits)
  have "sh_pc s1 \<noteq> AtPanic"
    using sh_exec_panic [OF _ ex] Cons.prems(2) by auto
  with st have "length (sh_workers s1) + length (sh_in s1) = length (sh_workers s) + length (sh_in s)"
    by (rule sh_step_count)
  with Cons.IH [OF ex Cons.prems(2)] show ?case by simp
qed

lemma mh_step_count:
  assumes "mh_step crc32 s ev = Some s'" and "mh_pc s' \<noteq> AtPanic"
  shows "length (mh_workers s') + length (mh_in s') = length (mh_workers s) + length (mh_in s)"
  using assms
  by (cases ev)
     (auto simp: mh_step_def mh_main_step_def mh_worker_step_def mh_inner_step_def Let_def
           split: if_splits stage_pc.splits list.splits val.splits mh_point.splits
             mh_inner.splits)

lemma mh_exec_count:
  assumes "mh_exec crc32 s sched = Some s'" and "mh_pc s' \<noteq> AtPanic"
  shows "length (mh_workers s') + length (mh_in s') = length (mh_workers s) + length (mh_in s)"
  using assms
proof (induction sched arbitrary: s)
  case Nil
  then show ?case by simp
next
  case (Cons ev sched)
  then obtain s1 where st: "mh_step crc32 s ev = Some s1"
    and ex: "mh_exec crc32 s1 sched = Some s'"
    by (auto split: option.splits)
  have "mh_pc s1 \<noteq> AtPanic"
    using mh_exec_panic [OF _ ex] Cons.prems(2) by auto
  with st have "length (mh_workers s1) + length (mh_in s1) = length (mh_workers s) + length (mh_in s)"
    by (rule mh_step_count)
  with Cons.IH [OF ex Cons.prems(2)] show ?case by simp
qed

lemma filter_all_length:
  "filter (\<lambda>x. \<not> P x) xs = [] \<Longrightarrow> length (filter P xs) = length xs"
  by (induction xs) (auto split: if_splits)

lemma sh_sent_exited: "filter sh_live ws = [] \<Longrightarrow> length (filter sh_sent ws) = length ws"
proof (induction ws)
  case Nil
  then show ?case by simp
next
  case (Cons w ws)
  then show ?case by (cases w) (auto split: if_splits)
qed

lemma mw_sent_exited: "filter mw_live ws = [] \<Longrightarrow> length (filter mw_sent ws) = length ws"
  by (induction ws) (auto split: if_splits)

subsection \<open>Steps of goroutines leave the loop of the stage alone\<close>

lemma filter_member_pos:
  "i < length xs \<Longrightarrow> P (xs ! i) \<Longrightarrow> length (filter P xs) \<noteq> 0"
  by (metis filter_empty_conv length_0_conv nth_mem)

lemma sh_worker_step_pc:
  assumes inv: "sh_inv crc32 md5 T s" and st: "sh_worker_step crc32 md5 s i = Some s'"
  shows "sh_pc s' = sh_pc s \<and> sh_in s' = sh_in s"
proof -
  from st have i: "i < length (sh_workers s)"
    by (auto simp: sh_worker_step_def split: if_splits)
  from inv have h: "length (filter holds_mu (sh_workers s)) = (if sh_mu s then 1 else 0)"
    and l: "length (filter sh_live (sh_workers s)) = sh_wg s"
    by (simp_all add: sh_inv_def)
  have mu: "sh_mu s" if "holds_mu (sh_workers s ! i)"
    using filter_member_pos [OF i, of holds_mu] that h
    by (cases "sh_mu s") simp_all
  have wg: "sh_wg s \<noteq> 0" if "sh_live (sh_workers s ! i)"
    using filter_member_pos [OF i, of sh_live] that l
    by simp
  show ?thesis
    using st i mu wg
    by (cases "sh_workers s ! i")
       (auto simp: sh_worker_step_def split: if_splits sh_sub.splits)
qed

lemma sh_sub_step_pc:
  assumes "sh_sub_step crc32 s i = Some s'"
  shows "sh_pc s' = sh_pc s \<and> sh_in s' = sh_in s"
  using assms
  by (auto simp: sh_sub_step_def split: if_splits sh_worker.splits sh_sub.splits)


subsection \<open>A value of the wrong type\<close>

lemma sh_main_step_mismatch:
  assumes bad: "\<not> isInt bad" and m: "sh_mismatch ns bad rest s"
    and st: "sh_main_step s = Some s'"
  shows "sh_mismatch ns bad rest s'"
proof -
  from m st have pc: "sh_pc s = AtRange"
    by (auto simp: sh_mismatch_def sh_main_step_def)
  with m obtain k where k: "k \<le> length ns" and i: "sh_in s = map IntV (drop k ns) @ bad # rest"
    by (auto simp: sh_mismatch_def)
  show ?thesis
  proof (cases "k < length ns")
    case True
    then have "drop k ns = ns ! k # drop (Suc k) ns"
      by (simp add: Cons_nth_drop_Suc)
    with i have "sh_in s = IntV (ns ! k) # map IntV (drop (Suc k) ns) @ bad # rest"
      by simp
    with st pc have "sh_pc s' = AtRange" "sh_in s' = map IntV (drop (Suc k) ns) @ bad # rest"
      by (auto simp: sh_main_step_def)
    with True show ?thesis
      unfolding sh_mismatch_def by (metis Suc_leI)
  next
    case False
    with k i have "sh_in s = bad # rest" by simp
    with st pc bad have "sh_pc s' = AtPanic" "sh_in s' = rest"
      by (cases bad; auto simp: sh_main_step_def)+
    then show ?thesis by (simp add: sh_mismatch_def)
  qed
qed

lemma sh_step_mismatch:
  assumes "\<not> isInt bad" and "sh_inv crc32 md5 T s" and "sh_mismatch ns bad rest s"
    and "sh_step crc32 md5 s ev = Some s'"
  shows "sh_mismatch ns bad rest s'"
proof (cases ev)
  case ShMain
  with assms show ?thesis
    by (auto simp: sh_step_def split: if_splits intro: sh_main_step_mismatch)
next
  case (ShWorker i)
  with assms(4) have "sh_worker_step crc32 md5 s i = Some s'"
    by (auto simp: sh_step_def split: if_splits)
  from sh_worker_step_pc [OF assms(2) this] assms(3) show ?thesis
    by (simp add: sh_mismatch_def)
next
  case (ShSub i)
  with assms(4) have "sh_sub_step crc32 s i = Some s'"
    by (auto simp: sh_step_def split: if_splits)
  from sh_sub_step_pc [OF this] assms(3) show ?thesis
    by (simp add: sh_mismatch_def)
qed

lemma sh_exec_mismatch:
  assumes "\<not> isInt bad" and "sh_exec crc32 md5 s sched = Some s'"
    and "sh_inv crc32 md5 T s" and "sh_mismatch ns bad rest s"
  shows "sh_mismatch ns bad rest s'"
  using assms(2-)
proof (induction sched arbitrary: s)
  case Nil
  then show ?case by simp
next
  case (Cons ev sched)
  then obtain s1 where st: "sh_step crc32 md5 s ev = Some s1"
    and ex: "sh_exec crc32 md5 s1 sched = Some s'"
    by (auto split: option.splits)
  from Cons.prems(2) st have "sh_inv crc32 md5 T s1" by (rule sh_step_inv)
  moreover from assms(1) Cons.prems(2,3) st have "sh_mismatch ns bad rest s1"
    by (rule sh_step_mismatch)
  ultimately show ?case using Cons.IH [OF ex] by simp
qed

lemma sh_reach_mismatch:
  assumes "\<not> isInt bad"
    and "sh_exec crc32 md5 (SingleHash_init (map IntV ns @ bad # rest) closed) sched = Some s"
  shows "sh_mismatch ns bad rest s"
proof -
  have "sh_mismatch ns bad rest (SingleHash_init (map IntV ns @ bad # rest) closed)"
    unfolding sh_mismatch_def SingleHash_init_def
    by (intro disjI1 conjI exI [of _ 0]) simp_all
  with assms sh_inv_init show ?thesis
    by (rule sh_exec_mismatch)
qed

lemma sh_main_reaches_panic:
  assumes "\<not> isInt bad" and "sh_pc s = AtRange" and "sh_in s = map IntV ns @ bad # rest"
  shows "\<exists>s'. sh_exec crc32 md5 s (replicate (Suc (length ns)) ShMain) = Some s' \<and>
              sh_pc s' = AtPanic \<and> sh_in s' = rest"
  using assms(2-)
proof (induction ns arbitrary: s)
  case Nil
  with assms(1) show ?case
    by (cases bad) (simp_all add: sh_step_def sh_main_step_def)
next
  case (Cons n ns)
  let ?s1 = "s\<lparr>sh_in := map IntV ns @ bad # rest, sh_wg := sh_wg s + 1,
                 sh_workers := sh_workers s @ [AtLock (Itoa n)]\<rparr>"
  from Cons.prems have st: "sh_step crc32 md5 s ShMain = Some ?s1"
    by (simp add: sh_step_def sh_main_step_def)
  have "\<exists>s'. sh_exec crc32 md5 ?s1 (replicate (Suc (length ns)) ShMain) = Some s' \<and>
              sh_pc s' = AtPanic \<and> sh_in s' = rest"
    by (rule Cons.IH) (simp_all add: Cons.prems)
  with st show ?case by simp
qed

lemma mh_main_step_mismatch:
  assumes bad: "\<not> isString bad" and m: "mh_mismatch ds bad rest s"
    and st: "mh_main_step s = Some s'"
  shows "mh_mismatch ds bad rest s'"
proof -
  from m st have pc: "mh_pc s = AtRange"
    by (auto simp: mh_mismatch_def mh_main_step_def)
  with m obtain k where k: "k \<le> length ds" and i: "mh_in s = map StrV (drop k ds) @ bad # rest"
    by (auto simp: mh_mismatch_def)
  show ?thesis
  proof (cases "k < length ds")
    case True
    then have "drop k ds = ds ! k # drop (Suc k) ds"
      by (simp add: Cons_nth_drop_Suc)
    with i have "mh_in s = StrV (ds ! k) # map StrV (drop (Suc k) ds) @ bad # rest"
      by simp
    with st pc have "mh_pc s' = AtRange" "mh_in s' = map StrV (drop (Suc k) ds) @ bad # rest"
      by (auto simp: mh_main_step_def)
    with True show ?thesis
      unfolding mh_mismatch_def by (metis Suc_leI)
  next
    case False
    with k i have "mh_in s = bad # rest" by simp
    with st pc bad have "mh_pc s' = AtPanic" "mh_in s' = rest"
      by (cases bad; auto simp: mh_main_step_def)+
    then show ?thesis by (simp add: mh_mismatch_def)
  qed
qed

lemma mh_step_mismatch:
  assumes "\<not> isString bad" and "mh_inv crc32 T s" and "mh_mismatch ds bad rest s"
    and "mh_step crc32 s ev = Some s'"
  shows "mh_mismatch ds bad rest s'"
proof (cases ev)
  case MhMain
  with assms show ?thesis
    by (auto simp: mh_step_def split: if_splits intro: mh_main_step_mismatch)
next
  case (MhWorker i)
  with assms(4) have "mh_worker_step s i = Some s'"
    by (auto simp: mh_step_def split: if_splits)
  from mh_worker_step_inv [OF assms(2) this] assms(3) show ?thesis
    by (simp add: mh_mismatch_def)
next
  case (MhInner i j)
  with assms(4) have "mh_inner_step crc32 s i j = Some s'"
    by (auto simp: mh_step_def split: if_splits)
  from mh_inner_step_inv [OF assms(2) this] assms(3) show ?thesis
    by (simp add: mh_mismatch_def)
qed

lemma mh_exec_mismatch:
  assumes "\<not> isString bad" and "mh_exec crc32 s sched = Some s'"
    and "mh_inv crc32 T s" and "mh_mismatch ds bad rest s"
  shows "mh_mismatch ds bad rest s'"
  using assms(2-)
proof (induction sched arbitrary: s)
  case Nil
  then show ?case by simp
next
  case (Cons ev sched)
  then obtain s1 where st: "mh_step crc32 s ev = Some s1"
    and ex: "mh_exec crc32 s1 sched = Some s'"
    by (auto split: option.splits)
  from Cons.prems(2) st have "mh_inv crc32 T s1" by (rule mh_step_inv)
  moreover from assms(1) Cons.prems(2,3) st have "mh_mismatch ds bad rest s1"
    by (rule mh_step_mismatch)
  ultimately show ?case using Cons.IH [OF ex] by simp
qed

lemma mh_reach_mismatch:
  assumes "\<not> isString bad"
    and "mh_exec crc32 (MultiHash_init (map StrV ds @ bad # rest) closed) sched = Some s"
  shows "mh_mismatch ds bad rest s"
proof -
  have "mh_mismatch ds bad rest (MultiHash_init (map StrV ds @ bad # rest) closed)"
    unfolding mh_mismatch_def MultiHash_init_def
    by (intro disjI1 conjI exI [of _ 0]) simp_all
  with assms mh_inv_init show ?thesis
    by (rule mh_exec_mismatch)
qed

lemma mh_main_reaches_panic:
  assumes "\<not> isString bad" and "mh_pc s = AtRange" and "mh_in s = map StrV ds @ bad # rest"
  shows "\<exists>s'. mh_exec crc32 s (replicate (Suc (length ds)) MhMain) = Some s' \<and>
              mh_pc s' = AtPanic \<and> mh_in s' = rest"
  using assms(2-)
proof (induction ds arbitrary: s)
  case Nil
  with assms(1) show ?case
    by (cases bad) (simp_all add: mh_step_def mh_main_step_def)
next
  case (Cons d ds)
  let ?s1 = "s\<lparr>mh_in := map StrV ds @ bad # rest, mh_wg := mh_wg s + 1,
                 mh_workers := mh_workers s @ [mh_spawn d]\<rparr>"
  from Cons.prems have st: "mh_step crc32 s MhMain = Some ?s1"
    by (simp add: mh_step_def mh_main_step_def)
  have "\<exists>s'. mh_exec crc32 ?s1 (replicate (Suc (length ds)) MhMain) = Some s' \<and>
              mh_pc s' = AtPanic \<and> mh_in s' = rest"
    by (rule Cons.IH) (simp_all add: Cons.prems)
  with st show ?case by simp
qed

lemma CombineResults_loop_mismatch:
  "\<not> isString bad \<Longrightarrow> CombineResults_loop acc (map StrV ds @ bad # rest) closed = Panicked []"
  by (induction ds arbitrary: acc) (cases bad; simp)+


subsection \<open>SingleHash: every step uses up the measure\<close>

lemma sum_list_update_less:
  fixes f :: "'a \<Rightarrow> nat"
  assumes "i < length ws" and "f y < f (ws ! i)"
  shows "sum_list (map f (ws[i := y])) < sum_list (map f ws)"
  using sum_list_map_update [OF assms(1), of f y] assms(2) by simp

lemma pc_rem_panic: "pc \<noteq> AtPanic \<Longrightarrow> 0 < pc_rem pc"
  by (cases pc) simp_all

lemma sh_main_step_measure:
  assumes "sh_main_step s = Some s'"
  shows "sh_measure s' < sh_measure s"
  using assms
  by (auto simp: sh_main_step_def sh_measure_def
           split: stage_pc.splits list.splits val.splits if_splits)

lemma sh_worker_step_measure:
  assumes st: "sh_worker_step crc32 md5 s i = Some s'" and pc: "sh_pc s \<noteq> AtPanic"
  shows "sh_measure s' < sh_measure s"
proof -
  from st have i: "i < length (sh_workers s)"
    by (auto simp: sh_worker_step_def split: if_splits)
  note l = sum_list_update_less [OF i, of sh_rem]
  note p = pc_rem_panic [OF pc]
  show ?thesis
  proof (cases "sh_workers s ! i")
    case (AtLock data)
    with st i l [of "AtMd5 data"] show ?thesis
      by (auto simp: sh_worker_step_def sh_measure_def split: if_splits)
  next
    case (AtMd5 data)
    with st i l [of "AtUnlock data (md5 data)"] show ?thesis
      by (auto simp: sh_worker_step_def sh_measure_def split: if_splits)
  next
    case (AtUnlock data m)
    with st i l [of "AtGo data m"] p show ?thesis
      by (auto simp: sh_worker_step_def sh_measure_def split: if_splits)
  next
    case (AtGo data m)
    with st i l [of "AtCrc data (SubCall m)"] show ?thesis
      by (auto simp: sh_worker_step_def sh_measure_def split: if_splits)
  next
    case (AtCrc data sub)
    with st i l [of "AtRecv (crc32 data) sub"] show ?thesis
      by (auto simp: sh_worker_step_def sh_measure_def split: if_splits)
  next
    case (AtRecv c sub)
    with st i obtain v where "sub = SubSend v"
      by (cases sub) (auto simp: sh_worker_step_def)
    with AtRecv st i l [of "AtSend (c @ ''~'' @ v)"] show ?thesis
      by (auto simp: sh_worker_step_def sh_measure_def split: if_splits)
  next
    case (AtSend res)
    with st i l [of AtDone] show ?thesis
      by (auto simp: sh_worker_step_def sh_measure_def split: if_splits)
  next
    case AtDone
    with st i l [of Exited] p show ?thesis
      by (auto simp: sh_worker_step_def sh_measure_def split: if_splits)
  next
    case Exited
    with st i show ?thesis
      by (auto simp: sh_worker_step_def)
  qed
qed

lemma sh_sub_step_measure:
  assumes st: "sh_sub_step crc32 s i = Some s'"
  shows "sh_measure s' < sh_measure s"
proof -
  from st have i: "i < length (sh_workers s)"
    by (auto simp: sh_sub_step_def split: if_splits)
  from st i obtain w' where "s' = s\<lparr>sh_workers := (sh_workers s)[i := w']\<rparr>"
    and "sh_rem w' < sh_rem (sh_workers s ! i)"
    by (auto simp: sh_sub_step_def split: if_splits sh_worker.splits sh_sub.splits)
  with sum_list_update_less [OF i, of sh_rem w'] show ?thesis
    by (simp add: sh_measure_def)
qed

lemma sh_step_measure:
  assumes "sh_step crc32 md5 s ev = Some s'"
  shows "sh_measure s' < sh_measure s"
  using assms
  by (cases ev)
     (auto simp: sh_step_def split: if_splits
           intro: sh_main_step_measure sh_worker_step_measure sh_sub_step_measure)

lemma sh_exec_length:
  assumes "sh_exec crc32 md5 s sched = Some s'"
  shows "length sched + sh_measure s' \<le> sh_measure s"
  using assms
proof (induction sched arbitrary: s)
  case Nil
  then show ?case by simp
next
  case (Cons ev sched)
  then obtain s1 where st: "sh_step crc32 md5 s ev = Some s1"
    and ex: "sh_exec crc32 md5 s1 sched = Some s'"
    by (auto split: option.splits)
  from sh_step_measure [OF st] Cons.IH [OF ex] show ?case by simp
qed


subsection \<open>SingleHash: some goroutine can always move\<close>

lemma filter_nonempty_nth:
  "filter P xs \<noteq> [] \<Longrightarrow> \<exists>i<length xs. P (xs ! i)"
  by (metis filter_empty_conv in_set_conv_nth)

lemma sh_worker_step_enabled:
  assumes "i < length (sh_workers s)"
    and "case sh_workers s ! i of
           AtLock data \<Rightarrow> \<not> sh_mu s
         | AtRecv c sub \<Rightarrow> (case sub of SubCall m \<Rightarrow> False | SubSend v \<Rightarrow> True)
         | Exited \<Rightarrow> False
         | _ \<Rightarrow> True"
  shows "\<exists>s'. sh_worker_step crc32 md5 s i = Some s'"
  using assms
  by (auto simp: sh_worker_step_def split: sh_worker.splits sh_sub.splits)

text \<open>While a goroutine of an item is alive, some goroutine of the stage can move.\<close>

lemma sh_goroutine_enabled:
  assumes inv: "sh_inv crc32 md5 T s" and pc: "sh_pc s \<noteq> AtPanic"
    and live: "filter sh_live (sh_workers s) \<noteq> []"
  shows "\<exists>i s'. sh_step crc32 md5 s (ShWorker i) = Some s' \<or> sh_step crc32 md5 s (ShSub i) = Some s'"
proof -
  let ?ws = "sh_workers s"
  from filter_nonempty_nth [OF live] obtain i where i: "i < length ?ws" and l: "sh_live (?ws ! i)"
    by blast
  have w: "\<exists>s'. sh_step crc32 md5 s (ShWorker j) = Some s'"
    if "\<exists>s'. sh_worker_step crc32 md5 s j = Some s'" for j
    using that pc by (simp add: sh_step_def)
  show ?thesis
  proof (cases "?ws ! i")
    case (AtLock data)
    show ?thesis
    proof (cases "sh_mu s")
      case False
      with AtLock i w [of i] sh_worker_step_enabled [OF i, of crc32 md5] show ?thesis
        by auto
    next
      case True
      with inv have "length (filter holds_mu ?ws) = 1" by (simp add: sh_inv_def)
      then have "filter holds_mu ?ws \<noteq> []" by auto
      from filter_nonempty_nth [OF this] obtain j where j: "j < length ?ws"
        and h: "holds_mu (?ws ! j)" by blast
      from h True have "case ?ws ! j of
           AtLock data \<Rightarrow> \<not> sh_mu s
         | AtRecv c sub \<Rightarrow> (case sub of SubCall m \<Rightarrow> False | SubSend v \<Rightarrow> True)
         | Exited \<Rightarrow> False
         | _ \<Rightarrow> True"
        by (cases "?ws ! j") simp_all
      from w [OF sh_worker_step_enabled [OF j this]] show ?thesis by blast
    qed
  next
    case (AtRecv c sub)
    show ?thesis
    proof (cases sub)
      case (SubCall m)
      with AtRecv i pc have "\<exists>s'. sh_step crc32 md5 s (ShSub i) = Some s'"
        by (simp add: sh_step_def sh_sub_step_def)
      then show ?thesis by blast
    next
      case (SubSend v)
      with AtRecv w [of i] sh_worker_step_enabled [OF i, of crc32 md5] show ?thesis
        by auto
    qed
  next
    case Exited
    with l show ?thesis by simp
  qed (use w [of i] sh_worker_step_enabled [OF i, of crc32 md5] in auto)
qed

text \<open>
  On a closed input of integers a stage that has not returned can take a step.
\<close>

lemma sh_enabled:
  assumes inv: "sh_inv crc32 md5 T s" and pc: "sh_pc s \<noteq> AtPanic" "sh_pc s \<noteq> AtReturn"
    and cl: "sh_closed s" and ints: "list_all isInt (sh_in s)"
  shows "\<exists>ev s'. sh_step crc32 md5 s ev = Some s'"
proof (cases "sh_pc s")
  case AtRange
  have "\<exists>s'. sh_main_step s = Some s'"
  proof (cases "sh_in s")
    case Nil
    with AtRange cl show ?thesis by (simp add: sh_main_step_def)
  next
    case (Cons v rest)
    with ints obtain n where "v = IntV n" by (cases v) simp_all
    with Cons AtRange show ?thesis by (simp add: sh_main_step_def)
  qed
  with pc have "\<exists>s'. sh_step crc32 md5 s ShMain = Some s'"
    by (simp add: sh_step_def)
  then show ?thesis by blast
next
  case AtWait
  show ?thesis
  proof (cases "sh_wg s = 0")
    case True
    with AtWait have "\<exists>s'. sh_step crc32 md5 s ShMain = Some s'"
      by (simp add: sh_step_def sh_main_step_def)
    then show ?thesis by blast
  next
    case False
    with inv have "filter sh_live (sh_workers s) \<noteq> []"
      by (auto simp: sh_inv_def)
    from sh_goroutine_enabled [OF inv pc(1) this] show ?thesis by blast
  qed
qed (use pc in auto)

lemma sh_main_step_good:
  assumes "sh_main_step s = Some s'" and "list_all isInt (sh_in s)"
  shows "sh_pc s' \<noteq> AtPanic \<and> list_all isInt (sh_in s')"
  using assms
  by (auto simp: sh_main_step_def split: stage_pc.splits list.splits val.splits if_splits)

lemma sh_step_good:
  assumes g: "sh_good crc32 md5 T s" and st: "sh_step crc32 md5 s ev = Some s'"
  shows "sh_good crc32 md5 T s'"
proof -
  from g st have inv': "sh_inv crc32 md5 T s'"
    by (auto simp: sh_good_def intro: sh_step_inv)
  have "sh_pc s' \<noteq> AtPanic \<and> list_all isInt (sh_in s')"
  proof (cases ev)
    case ShMain
    with g st show ?thesis
      by (auto simp: sh_good_def sh_step_def split: if_splits dest: sh_main_step_good)
  next
    case (ShWorker i)
    with st have "sh_worker_step crc32 md5 s i = Some s'"
      by (auto simp: sh_step_def split: if_splits)
    with g sh_worker_step_pc [of crc32 md5 T s i s'] show ?thesis
      by (simp add: sh_good_def)
  next
    case (ShSub i)
    with st have "sh_sub_step crc32 s i = Some s'"
      by (auto simp: sh_step_def split: if_splits)
    with g sh_sub_step_pc [of crc32 s i s'] show ?thesis
      by (simp add: sh_good_def)
  qed
  with inv' show ?thesis by (simp add: sh_good_def)
qed

lemma sh_step_closed:
  assumes "sh_step crc32 md5 s ev = Some s'"
  shows "sh_closed s' = sh_closed s"
  using assms
  by (cases ev)
     (auto simp: sh_step_def sh_main_step_def sh_worker_step_def sh_sub_step_def
           split: if_splits stage_pc.splits list.splits val.splits sh_worker.splits
             sh_sub.splits)

lemma sh_exec_append:
  "sh_exec crc32 md5 s (xs @ ys) =
     (case sh_exec crc32 md5 s xs of None \<Rightarrow> None | Some s' \<Rightarrow> sh_exec crc32 md5 s' ys)"
  by (induction xs arbitrary: s) (auto split: option.splits)

text \<open>Every run on a closed input of integers can be continued until the stage returns.\<close>

lemma sh_complete:
  assumes "sh_good crc32 md5 T s" and "sh_closed s"
  shows "\<exists>sched s'. sh_exec crc32 md5 s sched = Some s' \<and> sh_pc s' = AtReturn"
  using assms
proof (induction "sh_measure s" arbitrary: s rule: less_induct)
  case less
  show ?case
  proof (cases "sh_pc s = AtReturn")
    case True
    then have "sh_exec crc32 md5 s [] = Some s \<and> sh_pc s = AtReturn" by simp
    then show ?thesis by blast
  next
    case False
    with less.prems sh_enabled [of crc32 md5 T s] obtain ev s1
      where st: "sh_step crc32 md5 s ev = Some s1"
      by (auto simp: sh_good_def)
    have "sh_good crc32 md5 T s1" using less.prems(1) st by (rule sh_step_good)
    moreover have "sh_closed s1" using sh_step_closed [OF st] less.prems(2) by simp
    moreover have "sh_measure s1 < sh_measure s" using st by (rule sh_step_measure)
    ultimately obtain sched s' where "sh_exec crc32 md5 s1 sched = Some s'" "sh_pc s' = AtReturn"
      using less.hyps by blast
    with st have "sh_exec crc32 md5 s (ev # sched) = Some s' \<and> sh_pc s' = AtReturn"
      by simp
    then show ?thesis by blast
  qed
qed

text \<open>
  The goroutines of the items consumed so far can always run to their end, without
  another receive.
\<close>

lemma sh_goroutine_step_same:
  assumes "sh_inv crc32 md5 T s" and "sh_step crc32 md5 s ev = Some s'" and "ev \<noteq> ShMain"
  shows "sh_pc s' = sh_pc s \<and> sh_in s' = sh_in s \<and> length (sh_workers s') = length (sh_workers s)"
proof (cases ev)
  case ShMain
  with assms(3) show ?thesis by simp
next
  case (ShWorker i)
  with assms(2) have st: "sh_worker_step crc32 md5 s i = Some s'"
    by (auto simp: sh_step_def split: if_splits)
  from sh_worker_step_pc [OF assms(1) st] have "sh_pc s' = sh_pc s \<and> sh_in s' = sh_in s" .
  moreover from st this have "length (sh_workers s') = length (sh_workers s)"
    by (auto simp: sh_worker_step_def split: if_splits sh_worker.splits sh_sub.splits)
  ultimately show ?thesis by simp
next
  case (ShSub i)
  with assms(2) have st: "sh_sub_step crc32 s i = Some s'"
    by (auto simp: sh_step_def split: if_splits)
  then show ?thesis
    by (auto simp: sh_sub_step_def split: if_splits sh_worker.splits sh_sub.splits)
qed

lemma sh_drain:
  assumes "sh_inv crc32 md5 T s" and "sh_pc s \<noteq> AtPanic"
  shows "\<exists>sched s'. sh_exec crc32 md5 s sched = Some s' \<and> ShMain \<notin> set sched \<and>
           sh_pc s' = sh_pc s \<and> sh_in s' = sh_in s \<and>
           length (sh_workers s') = length (sh_workers s) \<and>
           filter sh_live (sh_workers s') = []"
  using assms
proof (induction "sh_measure s" arbitrary: s rule: less_induct)
  case less
  show ?case
  proof (cases "filter sh_live (sh_workers s) = []")
    case True
    then have "sh_exec crc32 md5 s [] = Some s \<and> ShMain \<notin> set [] \<and>
           sh_pc s = sh_pc s \<and> sh_in s = sh_in s \<and>
           length (sh_workers s) = length (sh_workers s) \<and>
           filter sh_live (sh_workers s) = []" by simp
    then show ?thesis by blast
  next
    case False
    from sh_goroutine_enabled [OF less.prems False] obtain ev s1
      where st: "sh_step crc32 md5 s ev = Some s1" and ev: "ev \<noteq> ShMain"
      by blast
    note same = sh_goroutine_step_same [OF less.prems(1) st ev]
    have "sh_inv crc32 md5 T s1" using less.prems(1) st by (rule sh_step_inv)
    moreover have "sh_pc s1 \<noteq> AtPanic" using same less.prems(2) by simp
    moreover have "sh_measure s1 < sh_measure s" using st by (rule sh_step_measure)
    ultimately obtain sched s' where r: "sh_exec crc32 md5 s1 sched = Some s'"
      "ShMain \<notin> set sched" "sh_pc s' = sh_pc s1" "sh_in s' = sh_in s1"
      "length (sh_workers s') = length (sh_workers s1)" "filter sh_live (sh_workers s') = []"
      using less.hyps by blast
    with st ev same have "sh_exec crc32 md5 s (ev # sched) = Some s' \<and> ShMain \<notin> set (ev # sched) \<and>
           sh_pc s' = sh_pc s \<and> sh_in s' = sh_in s \<and>
           length (sh_workers s') = length (sh_workers s) \<and>
           filter sh_live (sh_workers s') = []"
      by auto
    then show ?thesis by blast
  qed
qed


subsection \<open>MultiHash: every step uses up the measure\<close>

lemma mw_rem_spawn: "mw_rem (mh_spawn data) = 22"
  by (simp add: mw_rem_def mh_spawn_def numHashes_def)

lemma mh_main_step_measure:
  assumes "mh_main_step s = Some s'"
  shows "mh_measure s' < mh_measure s"
  using assms
  by (auto simp: mh_main_step_def mh_measure_def mw_rem_spawn
           split: stage_pc.splits list.splits val.splits if_splits)

lemma mh_update_measure:
  assumes "i < length (mh_workers s)" and "mw_rem w' < mw_rem (mh_workers s ! i)"
  shows "mh_measure (s\<lparr>mh_workers := (mh_workers s)[i := w']\<rparr>) < mh_measure s"
  using sum_list_update_less [OF assms(1), of mw_rem w'] assms(2)
  by (simp add: mh_measure_def)

lemma mh_worker_step_measure:
  assumes st: "mh_worker_step s i = Some s'" and pc: "mh_pc s \<noteq> AtPanic"
  shows "mh_measure s' < mh_measure s"
proof -
  let ?w = "mh_workers s ! i"
  from st have i: "i < length (mh_workers s)"
    by (auto simp: mh_worker_step_def split: if_splits)
  note u = mh_update_measure [OF i]
  note p = pc_rem_panic [OF pc]
  show ?thesis
  proof (cases "mw_pc ?w")
    case (MFor k)
    show ?thesis
    proof (cases "k < numHashes")
      case True
      have "mw_rem (?w\<lparr>mw_pc := MFor (k + 1), mw_inner := mw_inner ?w @ [InCall k]\<rparr>) < mw_rem ?w"
        using True MFor by (simp add: mw_rem_def)
      from u [OF this] st i MFor True show ?thesis
        by (simp add: mh_worker_step_def Let_def)
    next
      case False
      have "mw_rem (?w\<lparr>mw_pc := MWait\<rparr>) < mw_rem ?w"
        using MFor by (simp add: mw_rem_def)
      from u [OF this] st i MFor False show ?thesis
        by (simp add: mh_worker_step_def Let_def)
    qed
  next
    case MWait
    have "mw_rem (?w\<lparr>mw_pc := MSend\<rparr>) < mw_rem ?w"
      using MWait by (simp add: mw_rem_def)
    from u [OF this] st i MWait show ?thesis
      by (auto simp: mh_worker_step_def Let_def split: if_splits)
  next
    case MSend
    have "mw_rem (?w\<lparr>mw_pc := MDone\<rparr>) < mw_rem ?w"
      using MSend by (simp add: mw_rem_def)
    from u [OF this] st i MSend show ?thesis
      by (auto simp: mh_worker_step_def Let_def mh_measure_def)
  next
    case MDone
    have "mw_rem (?w\<lparr>mw_pc := MExited\<rparr>) < mw_rem ?w"
      using MDone by (simp add: mw_rem_def)
    from u [OF this] st i MDone p show ?thesis
      by (auto simp: mh_worker_step_def Let_def mh_measure_def split: if_splits)
  next
    case MExited
    with st i show ?thesis
      by (simp add: mh_worker_step_def Let_def)
  qed
qed

lemma mh_inner_step_measure:
  assumes st: "mh_inner_step crc32 s i j = Some s'" and pc: "mh_pc s \<noteq> AtPanic"
  shows "mh_measure s' < mh_measure s"
proof -
  let ?w = "mh_workers s ! i"
  from st have i: "i < length (mh_workers s)" and j: "j < length (mw_inner ?w)"
    by (auto simp: mh_inner_step_def Let_def split: if_splits)
  note u = mh_update_measure [OF i]
  note p = pc_rem_panic [OF pc]
  note l = sum_list_update_less [OF j, of in_rem]
  show ?thesis
  proof (cases "mw_inner ?w ! j")
    case (InCall k)
    have "mw_rem (?w\<lparr>mw_multiRes := (mw_multiRes ?w)[k := crc32 (Itoa (int k) @ mw_data ?w)],
                     mw_inner := (mw_inner ?w)[j := InDone]\<rparr>) < mw_rem ?w"
      using l [of InDone] InCall by (simp add: mw_rem_def)
    from u [OF this] st i j InCall p show ?thesis
      by (auto simp: mh_inner_step_def Let_def mh_measure_def split: if_splits)
  next
    case InDone
    have "mw_rem (?w\<lparr>mw_wgIn := mw_wgIn ?w - 1, mw_inner := (mw_inner ?w)[j := InExited]\<rparr>) < mw_rem ?w"
      using l [of InExited] InDone by (simp add: mw_rem_def)
    from u [OF this] st i j InDone p show ?thesis
      by (auto simp: mh_inner_step_def Let_def mh_measure_def split: if_splits)
  next
    case InExited
    with st i j show ?thesis
      by (simp add: mh_inner_step_def Let_def)
  qed
qed

lemma mh_step_measure:
  assumes "mh_step crc32 s ev = Some s'"
  shows "mh_measure s' < mh_measure s"
  using assms
  by (cases ev)
     (auto simp: mh_step_def split: if_splits
           intro: mh_main_step_measure mh_worker_step_measure mh_inner_step_measure)

lemma mh_exec_length:
  assumes "mh_exec crc32 s sched = Some s'"
  shows "length sched + mh_measure s' \<le> mh_measure s"
  using assms
proof (induction sched arbitrary: s)
  case Nil
  then show ?case by simp
next
  case (Cons ev sched)
  then obtain s1 where st: "mh_step crc32 s ev = Some s1"
    and ex: "mh_exec crc32 s1 sched = Some s'"
    by (auto split: option.splits)
  from mh_step_measure [OF st] Cons.IH [OF ex] show ?case by simp
qed

subsection \<open>MultiHash: some goroutine can always move\<close>

text \<open>While a goroutine of an item is alive, some goroutine of the stage can move.\<close>

lemma mh_goroutine_enabled:
  assumes inv: "mh_inv crc32 T s" and pc: "mh_pc s \<noteq> AtPanic"
    and live: "filter mw_live (mh_workers s) \<noteq> []"
  shows "\<exists>i j s'. mh_step crc32 s (MhWorker i) = Some s' \<or> mh_step crc32 s (MhInner i j) = Some s'"
proof -
  let ?ws = "mh_workers s"
  from filter_nonempty_nth [OF live] obtain i where i: "i < length ?ws" and l: "mw_live (?ws ! i)"
    by blast
  let ?w = "?ws ! i"
  from inv i have ok: "mw_ok crc32 ?w"
    by (simp add: mh_inv_def list_all_length)
  have w: "\<exists>s'. mh_step crc32 s (MhWorker i) = Some s'"
    if "mw_pc ?w \<noteq> MExited" "mw_pc ?w = MWait \<longrightarrow> mw_wgIn ?w = 0"
    using that i pc
    by (cases "mw_pc ?w") (simp_all add: mh_step_def mh_worker_step_def Let_def)
  show ?thesis
  proof (cases "mw_pc ?w = MWait \<and> mw_wgIn ?w \<noteq> 0")
    case False
    with l w show ?thesis by auto
  next
    case True
    with ok have "length (filter (\<lambda>x. x = InExited) (mw_inner ?w)) < length (mw_inner ?w)"
      by (auto simp: mw_ok_def)
    then have "filter (\<lambda>x. x \<noteq> InExited) (mw_inner ?w) \<noteq> []"
      by (metis filter_all_length less_irrefl)
    from filter_nonempty_nth [OF this] obtain j where j: "j < length (mw_inner ?w)"
      and e: "mw_inner ?w ! j \<noteq> InExited" by blast
    with i pc have "\<exists>s'. mh_step crc32 s (MhInner i j) = Some s'"
      by (cases "mw_inner ?w ! j") (simp_all add: mh_step_def mh_inner_step_def Let_def)
    then show ?thesis by blast
  qed
qed

lemma mh_enabled:
  assumes inv: "mh_inv crc32 T s" and pc: "mh_pc s \<noteq> AtPanic" "mh_pc s \<noteq> AtReturn"
    and cl: "mh_closed s" and strs: "list_all isString (mh_in s)"
  shows "\<exists>ev s'. mh_step crc32 s ev = Some s'"
proof (cases "mh_pc s")
  case AtRange
  have "\<exists>s'. mh_main_step s = Some s'"
  proof (cases "mh_in s")
    case Nil
    with AtRange cl show ?thesis by (simp add: mh_main_step_def)
  next
    case (Cons v rest)
    with strs obtain d where "v = StrV d" by (cases v) simp_all
    with Cons AtRange show ?thesis by (simp add: mh_main_step_def)
  qed
  with pc have "\<exists>s'. mh_step crc32 s MhMain = Some s'"
    by (simp add: mh_step_def)
  then show ?thesis by blast
next
  case AtWait
  show ?thesis
  proof (cases "mh_wg s = 0")
    case True
    with AtWait have "\<exists>s'. mh_step crc32 s MhMain = Some s'"
      by (simp add: mh_step_def mh_main_step_def)
    then show ?thesis by blast
  next
    case False
    with inv have "filter mw_live (mh_workers s) \<noteq> []"
      by (auto simp: mh_inv_def)
    from mh_goroutine_enabled [OF inv pc(1) this] show ?thesis by blast
  qed
qed (use pc in auto)

lemma mh_main_step_good:
  assumes "mh_main_step s = Some s'" and "list_all isString (mh_in s)"
  shows "mh_pc s' \<noteq> AtPanic \<and> list_all isString (mh_in s')"
  using assms
  by (auto simp: mh_main_step_def split: stage_pc.splits list.splits val.splits if_splits)

lemma mh_step_good:
  assumes g: "mh_good crc32 T s" and st: "mh_step crc32 s ev = Some s'"
  shows "mh_good crc32 T s'"
proof -
  from g st have inv': "mh_inv crc32 T s'"
    by (auto simp: mh_good_def intro: mh_step_inv)
  have "mh_pc s' \<noteq> AtPanic \<and> list_all isString (mh_in s')"
  proof (cases ev)
    case MhMain
    with g st show ?thesis
      by (auto simp: mh_good_def mh_step_def split: if_splits dest: mh_main_step_good)
  next
    case (MhWorker i)
    with st have "mh_worker_step s i = Some s'"
      by (auto simp: mh_step_def split: if_splits)
    with g mh_worker_step_inv [of crc32 T s i s'] show ?thesis
      by (simp add: mh_good_def)
  next
    case (MhInner i j)
    with st have "mh_inner_step crc32 s i j = Some s'"
      by (auto simp: mh_step_def split: if_splits)
    with g mh_inner_step_inv [of crc32 T s i j s'] show ?thesis
      by (simp add: mh_good_def)
  qed
  with inv' show ?thesis by (simp add: mh_good_def)
qed

lemma mh_step_closed:
  assumes "mh_step crc32 s ev = Some s'"
  shows "mh_closed s' = mh_closed s"
  using assms
  by (cases ev)
     (auto simp: mh_step_def mh_main_step_def mh_worker_step_def mh_inner_step_def Let_def
           split: if_splits stage_pc.splits list.splits val.splits mh_point.splits
             mh_inner.splits)

lemma mh_complete:
  assumes "mh_good crc32 T s" and "mh_closed s"
  shows "\<exists>sched s'. mh_exec crc32 s sched = Some s' \<and> mh_pc s' = AtReturn"
  using assms
proof (induction "mh_measure s" arbitrary: s rule: less_induct)
  case less
  show ?case
  proof (cases "mh_pc s = AtReturn")
    case True
    then have "mh_exec crc32 s [] = Some s \<and> mh_pc s = AtReturn" by simp
    then show ?thesis by blast
  next
    case False
    with less.prems mh_enabled [of crc32 T s] obtain ev s1
      where st: "mh_step crc32 s ev = Some s1"
      by (auto simp: mh_good_def)
    have "mh_good crc32 T s1" using less.prems(1) st by (rule mh_step_good)
    moreover have "mh_closed s1" using mh_step_closed [OF st] less.prems(2) by simp
    moreover have "mh_measure s1 < mh_measure s" using st by (rule mh_step_measure)
    ultimately obtain sched s' where "mh_exec crc32 s1 sched = Some s'" "mh_pc s' = AtReturn"
      using less.hyps by blast
    with st have "mh_exec crc32 s (ev # sched) = Some s' \<and> mh_pc s' = AtReturn"
      by simp
    then show ?thesis by blast
  qed
qed

lemma mh_goroutine_step_same:
  assumes "mh_inv crc32 T s" and "mh_step crc32 s ev = Some s'" and "ev \<noteq> MhMain"
  shows "mh_pc s' = mh_pc s \<and> mh_in s' = mh_in s \<and> length (mh_workers s') = length (mh_workers s)"
proof (cases ev)
  case MhMain
  with assms(3) show ?thesis by simp
next
  case (MhWorker i)
  with assms(2) have st: "mh_worker_step s i = Some s'"
    by (auto simp: mh_step_def split: if_splits)
  from mh_worker_step_inv [OF assms(1) st] have "mh_pc s' = mh_pc s \<and> mh_in s' = mh_in s"
    by simp
  moreover from st this have "length (mh_workers s') = length (mh_workers s)"
    by (auto simp: mh_worker_step_def Let_def split: if_splits mh_point.splits)
  ultimately show ?thesis by simp
next
  case (MhInner i j)
  with assms(2) have st: "mh_inner_step crc32 s i j = Some s'"
    by (auto simp: mh_step_def split: if_splits)
  from mh_inner_step_inv [OF assms(1) st] have "mh_pc s' = mh_pc s \<and> mh_in s' = mh_in s"
    by simp
  moreover from st this have "length (mh_workers s') = length (mh_workers s)"
    by (auto simp: mh_inner_step_def Let_def split: if_splits mh_inner.splits)
  ultimately show ?thesis by simp
qed

lemma mh_drain:
  assumes "mh_inv crc32 T s" and "mh_pc s \<noteq> AtPanic"
  shows "\<exists>sched s'. mh_exec crc32 s sched = Some s' \<and> MhMain \<notin> set sched \<and>
           mh_pc s' = mh_pc s \<and> mh_in s' = mh_in s \<and>
           length (mh_workers s') = length (mh_workers s) \<and>
           filter mw_live (mh_workers s') = []"
  using assms
proof (induction "mh_measure s" arbitrary: s rule: less_induct)
  case less
  show ?case
  proof (cases "filter mw_live (mh_workers s) = []")
    case True
    then have "mh_exec crc32 s [] = Some s \<and> MhMain \<notin> set [] \<and>
           mh_pc s = mh_pc s \<and> mh_in s = mh_in s \<and>
           length (mh_workers s) = length (mh_workers s) \<and>
           filter mw_live (mh_workers s) = []" by simp
    then show ?thesis by blast
  next
    case False
    from mh_goroutine_enabled [OF less.prems False] obtain ev s1
      where st: "mh_step crc32 s ev = Some s1" and ev: "ev \<noteq> MhMain"
      by blast
    note same = mh_goroutine_step_same [OF less.prems(1) st ev]
    have "mh_inv crc32 T s1" using less.prems(1) st by (rule mh_step_inv)
    moreover have "mh_pc s1 \<noteq> AtPanic" using same less.prems(2) by simp
    moreover have "mh_measure s1 < mh_measure s" using st by (rule mh_step_measure)
    ultimately obtain sched s' where r: "mh_exec crc32 s1 sched = Some s'"
      "MhMain \<notin> set sched" "mh_pc s' = mh_pc s1" "mh_in s' = mh_in s1"
      "length (mh_workers s') = length (mh_workers s1)" "filter mw_live (mh_workers s') = []"
      using less.hyps by blast
    with st ev same have "mh_exec crc32 s (ev # sched) = Some s' \<and> MhMain \<notin> set (ev # sched) \<and>
           mh_pc s' = mh_pc s \<and> mh_in s' = mh_in s \<and>
           length (mh_workers s') = length (mh_workers s) \<and>
           filter mw_live (mh_workers s') = []"
      by auto
    then show ?thesis by blast
  qed
qed


subsection \<open>SingleHash: runs from the start\<close>

lemma sh_step_out:
  assumes "sh_step crc32 md5 s ev = Some s'"
  shows "\<exists>ys. sh_out s' = sh_out s @ ys"
  using assms
  by (cases ev)
     (auto simp: sh_step_def sh_main_step_def sh_worker_step_def sh_sub_step_def
           split: if_splits stage_pc.splits list.splits val.splits sh_worker.splits
             sh_sub.splits)

lemma sh_exec_out:
  assumes "sh_exec crc32 md5 s sched = Some s'"
  shows "\<exists>ys. sh_out s' = sh_out s @ ys"
  using assms
proof (induction sched arbitrary: s)
  case Nil
  then show ?case by simp
next
  case (Cons ev sched)
  then obtain s1 where st: "sh_step crc32 md5 s ev = Some s1"
    and ex: "sh_exec crc32 md5 s1 sched = Some s'"
    by (auto split: option.splits)
  from sh_step_out [OF st] Cons.IH [OF ex] show ?case by auto
qed

lemma sh_exec_good:
  assumes "sh_exec crc32 md5 s sched = Some s'" and "sh_good crc32 md5 T s"
  shows "sh_good crc32 md5 T s'"
  using assms
proof (induction sched arbitrary: s)
  case Nil
  then show ?case by simp
next
  case (Cons ev sched)
  then show ?case
    by (auto split: option.splits dest: sh_step_good)
qed

lemma sh_exec_closed:
  assumes "sh_exec crc32 md5 s sched = Some s'"
  shows "sh_closed s' = sh_closed s"
  using assms
proof (induction sched arbitrary: s)
  case Nil
  then show ?case by simp
next
  case (Cons ev sched)
  then show ?case
    by (auto split: option.splits dest: sh_step_closed)
qed

lemma sh_init_good:
  "sh_good crc32 md5 (sh_expected crc32 md5 (map IntV ns)) (SingleHash_init (map IntV ns) closed)"
  by (simp add: sh_good_def sh_inv_init) (simp add: SingleHash_init_def list_all_iff)

lemma sh_measure_init: "sh_measure (SingleHash_init inp closed) = 10 * length inp + 3"
  by (simp add: sh_measure_def SingleHash_init_def)

lemma sh_ended_out:
  assumes "sh_inv crc32 md5 T s" and "filter sh_live (sh_workers s) = []"
  shows "mset (sh_out s) + sh_expected crc32 md5 (sh_in s) = T"
  using assms by (simp add: sh_inv_def sh_pending_exited)


subsection \<open>MultiHash: runs from the start\<close>

lemma mh_step_out:
  assumes "mh_step crc32 s ev = Some s'"
  shows "\<exists>ys. mh_out s' = mh_out s @ ys"
  using assms
  by (cases ev)
     (auto simp: mh_step_def mh_main_step_def mh_worker_step_def mh_inner_step_def Let_def
           split: if_splits stage_pc.splits list.splits val.splits mh_point.splits
             mh_inner.splits)

lemma mh_exec_out:
  assumes "mh_exec crc32 s sched = Some s'"
  shows "\<exists>ys. mh_out s' = mh_out s @ ys"
  using assms
proof (induction sched arbitrary: s)
  case Nil
  then show ?case by simp
next
  case (Cons ev sched)
  then obtain s1 where st: "mh_step crc32 s ev = Some s1"
    and ex: "mh_exec crc32 s1 sched = Some s'"
    by (auto split: option.splits)
  from mh_step_out [OF st] Cons.IH [OF ex] show ?case by auto
qed

lemma mh_exec_good:
  assumes "mh_exec crc32 s sched = Some s'" and "mh_good crc32 T s"
  shows "mh_good crc32 T s'"
  using assms
proof (induction sched arbitrary: s)
  case Nil
  then show ?case by simp
next
  case (Cons ev sched)
  then show ?case
    by (auto split: option.splits dest: mh_step_good)
qed

lemma mh_exec_closed:
  assumes "mh_exec crc32 s sched = Some s'"
  shows "mh_closed s' = mh_closed s"
  using assms
proof (induction sched arbitrary: s)
  case Nil
  then show ?case by simp
next
  case (Cons ev sched)
  then show ?case
    by (auto split: option.splits dest: mh_step_closed)
qed

lemma mh_exec_append:
  "mh_exec crc32 s (xs @ ys) =
     (case mh_exec crc32 s xs of None \<Rightarrow> None | Some s' \<Rightarrow> mh_exec crc32 s' ys)"
  by (induction xs arbitrary: s) (auto split: option.splits)

lemma mh_init_good:
  "mh_good crc32 (mh_expected crc32 (map StrV ds)) (MultiHash_init (map StrV ds) closed)"
  by (simp add: mh_good_def mh_inv_init) (simp add: MultiHash_init_def list_all_iff)

lemma mh_measure_init: "mh_measure (MultiHash_init inp closed) = 23 * length inp + 3"
  by (simp add: mh_measure_def MultiHash_init_def)

lemma mh_ended_out:
  assumes "mh_inv crc32 T s" and "filter mw_live (mh_workers s) = []"
  shows "mset (mh_out s) + mh_expected crc32 (mh_in s) = T"
  using assms by (simp add: mh_inv_def mh_pending_exited)


section \<open>The stages\<close>

subsection \<open>SingleHash: the string of each item\<close>

text \<open>
  C1. In every state that \<open>SingleHash\<close> reaches on integers \<open>ns\<close>, under any schedule,
  it has consumed a prefix of \<open>ns\<close>, and what it has sent are strings
  \<open>DataSignerCrc32(s) + "~" + DataSignerCrc32(DataSignerMd5(s))\<close> with \<open>s\<close> the decimal form
  of a consumed integer, each consumed integer giving at most one of them. The string of
  every consumed integer does get sent: without another receive the run can be continued
  to a state where exactly these strings have been sent, after the ones sent already.
  When the input is closed the run can be continued until the stage has returned, and a
  run that can take no step has returned; a stage that has returned has sent exactly one
  such string for every integer. No run is longer than ten steps for each integer, and
  three.
\<close>

theorem SingleHash_emits_crc_tilde_crc_md5:
  assumes run: "sh_exec crc32 md5 (SingleHash_init (map IntV ns) closed) sched = Some s"
  shows "\<exists>k. k \<le> length ns \<and> sh_in s = map IntV (drop k ns) \<and>
           mset (sh_out s) \<subseteq>#
             mset (map (\<lambda>n. StrV (crc32 (Itoa n) @ ''~'' @ crc32 (md5 (Itoa n)))) (take k ns)) \<and>
           (sh_pc s = AtReturn \<longrightarrow>
              mset (sh_out s) =
                mset (map (\<lambda>n. StrV (crc32 (Itoa n) @ ''~'' @ crc32 (md5 (Itoa n)))) ns)) \<and>
           (\<exists>sched' s'. sh_exec crc32 md5 s sched' = Some s' \<and> sh_in s' = sh_in s \<and>
              (\<exists>ys. sh_out s' = sh_out s @ ys) \<and>
              mset (sh_out s') =
                mset (map (\<lambda>n. StrV (crc32 (Itoa n) @ ''~'' @ crc32 (md5 (Itoa n)))) (take k ns))) \<and>
           (closed \<longrightarrow>
              (\<exists>sched' s'. sh_exec crc32 md5 s sched' = Some s' \<and> sh_pc s' = AtReturn \<and>
                 (\<exists>ys. sh_out s' = sh_out s @ ys) \<and>
                 mset (sh_out s') =
                   mset (map (\<lambda>n. StrV (crc32 (Itoa n) @ ''~'' @ crc32 (md5 (Itoa n)))) ns))) \<and>
           (closed \<and> (\<forall>ev. sh_step crc32 md5 s ev = None) \<longrightarrow> sh_pc s = AtReturn) \<and>
           length sched \<le> 10 * length ns + 3"
proof -
  let ?f = "\<lambda>n. StrV (crc32 (Itoa n) @ ''~'' @ crc32 (md5 (Itoa n)))"
  let ?T = "sh_expected crc32 md5 (map IntV ns)"
  have e: "sh_expected crc32 md5 (map IntV ms) = mset (map ?f ms)" for ms
    using sh_expected_ints [of crc32 md5 ms] by (simp add: single_def)
  from sh_exec_suffix [OF run] obtain k where k: "k \<le> length ns"
    and i: "sh_in s = map IntV (drop k ns)"
    by (auto simp: SingleHash_init_def drop_map)
  have good: "sh_good crc32 md5 ?T s"
    using run sh_init_good by (rule sh_exec_good)
  then have inv: "sh_inv crc32 md5 ?T s" and pc: "sh_pc s \<noteq> AtPanic"
    and ints: "list_all isInt (sh_in s)"
    by (simp_all add: sh_good_def)
  have cl: "sh_closed s = closed"
    using sh_exec_closed [OF run] by (simp add: SingleHash_init_def)
  have split: "?T = mset (map ?f (take k ns)) + mset (map ?f (drop k ns))"
    by (metis append_take_drop_id e map_append mset_append)
  with inv i have "sum_list (map (sh_pending crc32 md5) (sh_workers s)) + mset (sh_out s) =
      mset (map ?f (take k ns))"
    by (simp add: sh_inv_def e)
  then have sub: "mset (sh_out s) \<subseteq># mset (map ?f (take k ns))"
    by (metis mset_subset_eq_add_right)
  have ret: "mset (sh_out s) = mset (map ?f ns)" if "sh_pc s = AtReturn"
    using sh_returned_out [OF run that] by (simp add: e)
  have drain: "\<exists>sched' s'. sh_exec crc32 md5 s sched' = Some s' \<and> sh_in s' = sh_in s \<and>
              (\<exists>ys. sh_out s' = sh_out s @ ys) \<and> mset (sh_out s') = mset (map ?f (take k ns))"
  proof -
    from sh_drain [OF inv pc] obtain sched' s' where d: "sh_exec crc32 md5 s sched' = Some s'"
      "sh_in s' = sh_in s" "filter sh_live (sh_workers s') = []"
      by blast
    have "sh_inv crc32 md5 ?T s'" using d(1) inv by (rule sh_exec_inv)
    from sh_ended_out [OF this d(3)] d(2) i split
    have "mset (sh_out s') = mset (map ?f (take k ns))"
      by (simp add: e)
    with d sh_exec_out [OF d(1)] show ?thesis by blast
  qed
  have compl: "\<exists>sched' s'. sh_exec crc32 md5 s sched' = Some s' \<and> sh_pc s' = AtReturn \<and>
                 (\<exists>ys. sh_out s' = sh_out s @ ys) \<and> mset (sh_out s') = mset (map ?f ns)"
    if closed
  proof -
    from that cl have "sh_closed s" by simp
    from sh_complete [OF good this] obtain sched' s' where c: "sh_exec crc32 md5 s sched' = Some s'"
      "sh_pc s' = AtReturn" by blast
    from run c(1) have "sh_exec crc32 md5 (SingleHash_init (map IntV ns) closed) (sched @ sched') = Some s'"
      by (simp add: sh_exec_append)
    from sh_returned_out [OF this c(2)] have "mset (sh_out s') = mset (map ?f ns)"
      by (simp add: e)
    with c sh_exec_out [OF c(1)] show ?thesis by blast
  qed
  have stuck: "sh_pc s = AtReturn" if "closed \<and> (\<forall>ev. sh_step crc32 md5 s ev = None)"
  proof (rule ccontr)
    assume "sh_pc s \<noteq> AtReturn"
    with that cl sh_enabled [OF inv pc _ _ ints] show False by auto
  qed
  have len: "length sched \<le> 10 * length ns + 3"
    using sh_exec_length [OF run] by (simp add: sh_measure_init)
  from k i sub ret drain compl stuck len show ?thesis by blast
qed

text \<open>
  Two integers whose goroutines overlap; the second one locks first and sends first.
\<close>

theorem SingleHash_emits_crc_tilde_crc_md5_witness:
  "sh_exec crc_stub md5_stub (SingleHash_init (map IntV [7, 8]) True)
     [ShMain, ShMain, ShWorker 1, ShWorker 1, ShWorker 1, ShWorker 0,
      ShWorker 0, ShWorker 0, ShWorker 0, ShWorker 1, ShSub 1, ShSub 0,
      ShWorker 0, ShWorker 1, ShWorker 1, ShWorker 1, ShWorker 0, ShWorker 0,
      ShMain, ShWorker 0, ShWorker 1, ShMain] =
     Some \<lparr>sh_in = [], sh_closed = True, sh_pc = AtReturn, sh_wg = 0, sh_mu = False,
           sh_workers = [Exited, Exited],
           sh_out = [StrV ''c8~cm8'', StrV ''c7~cm7'']\<rparr> \<and>
   mset [StrV ''c8~cm8'', StrV ''c7~cm7''] =
     mset (map (\<lambda>n. StrV (crc_stub (Itoa n) @ ''~'' @ crc_stub (md5_stub (Itoa n)))) [7, 8])"
proof -
  let ?s = "\<lparr>sh_in = [], sh_closed = True, sh_pc = AtReturn, sh_wg = 0, sh_mu = False,
           sh_workers = [Exited, Exited],
           sh_out = [StrV ''c8~cm8'', StrV ''c7~cm7'']\<rparr>"
  have run: "sh_exec crc_stub md5_stub (SingleHash_init (map IntV [7, 8]) True)
     [ShMain, ShMain, ShWorker 1, ShWorker 1, ShWorker 1, ShWorker 0,
      ShWorker 0, ShWorker 0, ShWorker 0, ShWorker 1, ShSub 1, ShSub 0,
      ShWorker 0, ShWorker 1, ShWorker 1, ShWorker 1, ShWorker 0, ShWorker 0,
      ShMain, ShWorker 0, ShWorker 1, ShMain] = Some ?s"
    by code_simp
  have "mset [StrV ''c8~cm8'', StrV ''c7~cm7''] =
     mset (map (\<lambda>n. StrV (crc_stub (Itoa n) @ ''~'' @ crc_stub (md5_stub (Itoa n)))) [7, 8])"
    using SingleHash_emits_crc_tilde_crc_md5 [OF run]
    by (simp add: crc_stub_def md5_stub_def Itoa_digit)
  with run show ?thesis by (rule conjI)
qed

subsection \<open>MultiHash: six digests in the order of the index\<close>

text \<open>
  C2. In every state that \<open>MultiHash\<close> reaches on strings \<open>ds\<close>, under any schedule (so
  in whatever order the six goroutines of an item run and end), it has consumed a prefix
  of \<open>ds\<close>, and what it has sent are the concatenations
  \<open>DataSignerCrc32("0" + d)\<close> ... \<open>DataSignerCrc32("5" + d)\<close>, in the order 0 to 5, of
  consumed strings \<open>d\<close>, each consumed string giving at most one of them. The
  concatenation of every consumed string does get sent: without another receive the run
  can be continued to a state where exactly these have been sent, after the ones sent
  already. When the input is closed the run can be continued until the stage has
  returned, and a run that can take no step has returned; a stage that has returned has
  sent exactly one such concatenation for every string. No run is longer than
  twenty-three steps for each string, and three.
\<close>

theorem MultiHash_emits_six_in_index_order:
  assumes run: "mh_exec crc32 (MultiHash_init (map StrV ds) closed) sched = Some s"
  shows "\<exists>k. k \<le> length ds \<and> mh_in s = map StrV (drop k ds) \<and>
           mset (mh_out s) \<subseteq>#
             mset (map (\<lambda>d. StrV (crc32 (''0'' @ d) @ crc32 (''1'' @ d) @ crc32 (''2'' @ d) @
                                  crc32 (''3'' @ d) @ crc32 (''4'' @ d) @ crc32 (''5'' @ d)))
                    (take k ds)) \<and>
           (mh_pc s = AtReturn \<longrightarrow>
              mset (mh_out s) =
                mset (map (\<lambda>d. StrV (crc32 (''0'' @ d) @ crc32 (''1'' @ d) @ crc32 (''2'' @ d) @
                                     crc32 (''3'' @ d) @ crc32 (''4'' @ d) @ crc32 (''5'' @ d)))
                       ds)) \<and>
           (\<exists>sched' s'. mh_exec crc32 s sched' = Some s' \<and> mh_in s' = mh_in s \<and>
              (\<exists>ys. mh_out s' = mh_out s @ ys) \<and>
              mset (mh_out s') =
                mset (map (\<lambda>d. StrV (crc32 (''0'' @ d) @ crc32 (''1'' @ d) @ crc32 (''2'' @ d) @
                                     crc32 (''3'' @ d) @ crc32 (''4'' @ d) @ crc32 (''5'' @ d)))
                       (take k ds))) \<and>
           (closed \<longrightarrow>
              (\<exists>sched' s'. mh_exec crc32 s sched' = Some s' \<and> mh_pc s' = AtReturn \<and>
                 (\<exists>ys. mh_out s' = mh_out s @ ys) \<and>
                 mset (mh_out s') =
                   mset (map (\<lambda>d. StrV (crc32 (''0'' @ d) @ crc32 (''1'' @ d) @ crc32 (''2'' @ d) @
                                        crc32 (''3'' @ d) @ crc32 (''4'' @ d) @ crc32 (''5'' @ d)))
                          ds))) \<and>
           (closed \<and> (\<forall>ev. mh_step crc32 s ev = None) \<longrightarrow> mh_pc s = AtReturn) \<and>
           length sched \<le> 23 * length ds + 3"
proof -
  let ?f = "\<lambda>d. StrV (crc32 (''0'' @ d) @ crc32 (''1'' @ d) @ crc32 (''2'' @ d) @
                       crc32 (''3'' @ d) @ crc32 (''4'' @ d) @ crc32 (''5'' @ d))"
  let ?T = "mh_expected crc32 (map StrV ds)"
  have e: "mh_expected crc32 (map StrV xs) = mset (map ?f xs)" for xs
    using mh_expected_strings [of crc32 xs] by (simp add: multi_unfold)
  from mh_exec_suffix [OF run mh_inv_init] obtain k where k: "k \<le> length ds"
    and i: "mh_in s = map StrV (drop k ds)"
    by (auto simp: MultiHash_init_def drop_map)
  have good: "mh_good crc32 ?T s"
    using run mh_init_good by (rule mh_exec_good)
  then have inv: "mh_inv crc32 ?T s" and pc: "mh_pc s \<noteq> AtPanic"
    and strs: "list_all isString (mh_in s)"
    by (simp_all add: mh_good_def)
  have cl: "mh_closed s = closed"
    using mh_exec_closed [OF run] by (simp add: MultiHash_init_def)
  have split: "?T = mset (map ?f (take k ds)) + mset (map ?f (drop k ds))"
    by (metis append_take_drop_id e map_append mset_append)
  with inv i have "sum_list (map (mh_pending crc32) (mh_workers s)) + mset (mh_out s) =
      mset (map ?f (take k ds))"
    by (simp add: mh_inv_def e)
  then have sub: "mset (mh_out s) \<subseteq># mset (map ?f (take k ds))"
    by (metis mset_subset_eq_add_right)
  have ret: "mset (mh_out s) = mset (map ?f ds)" if "mh_pc s = AtReturn"
    using mh_returned_out [OF run that] by (simp add: e)
  have drain: "\<exists>sched' s'. mh_exec crc32 s sched' = Some s' \<and> mh_in s' = mh_in s \<and>
              (\<exists>ys. mh_out s' = mh_out s @ ys) \<and> mset (mh_out s') = mset (map ?f (take k ds))"
  proof -
    from mh_drain [OF inv pc] obtain sched' s' where d: "mh_exec crc32 s sched' = Some s'"
      "mh_in s' = mh_in s" "filter mw_live (mh_workers s') = []"
      by blast
    have "mh_inv crc32 ?T s'" using d(1) inv by (rule mh_exec_inv)
    from mh_ended_out [OF this d(3)] d(2) i split
    have "mset (mh_out s') = mset (map ?f (take k ds))"
      by (simp add: e)
    with d mh_exec_out [OF d(1)] show ?thesis by blast
  qed
  have compl: "\<exists>sched' s'. mh_exec crc32 s sched' = Some s' \<and> mh_pc s' = AtReturn \<and>
                 (\<exists>ys. mh_out s' = mh_out s @ ys) \<and> mset (mh_out s') = mset (map ?f ds)"
    if closed
  proof -
    from that cl have "mh_closed s" by simp
    from mh_complete [OF good this] obtain sched' s' where c: "mh_exec crc32 s sched' = Some s'"
      "mh_pc s' = AtReturn" by blast
    from run c(1) have "mh_exec crc32 (MultiHash_init (map StrV ds) closed) (sched @ sched') = Some s'"
      by (simp add: mh_exec_append)
    from mh_returned_out [OF this c(2)] have "mset (mh_out s') = mset (map ?f ds)"
      by (simp add: e)
    with c mh_exec_out [OF c(1)] show ?thesis by blast
  qed
  have stuck: "mh_pc s = AtReturn" if "closed \<and> (\<forall>ev. mh_step crc32 s ev = None)"
  proof (rule ccontr)
    assume "mh_pc s \<noteq> AtReturn"
    with that cl mh_enabled [OF inv pc _ _ strs] show False by auto
  qed
  have len: "length sched \<le> 23 * length ds + 3"
    using mh_exec_length [OF run] by (simp add: mh_measure_init)
  from k i sub ret drain compl stuck len show ?thesis by blast
qed

text \<open>
  Two strings whose goroutines overlap. The six goroutines of the second store in the
  order 5, 3, 1, 0, 2, 4, those of the first in the order 2, 4, 0, 1, 5, 3, and the
  second string is answered first.
\<close>

theorem MultiHash_emits_six_in_index_order_witness:
  "mh_exec crc_stub (MultiHash_init (map StrV [''x'', ''y'']) True)
     [MhMain, MhMain, MhWorker 1, MhWorker 1, MhWorker 1, MhWorker 1,
      MhWorker 1, MhWorker 1, MhWorker 1, MhWorker 0, MhWorker 0, MhWorker 0,
      MhWorker 0, MhWorker 0, MhWorker 0, MhWorker 0, MhInner 1 5,
      MhInner 1 3, MhInner 1 1, MhInner 1 0, MhInner 1 2, MhInner 1 4,
      MhInner 0 2, MhInner 0 4, MhInner 0 0, MhInner 0 1, MhInner 0 5,
      MhInner 0 3, MhInner 0 0, MhInner 0 1, MhInner 0 2, MhInner 0 3,
      MhInner 0 4, MhInner 0 5, MhInner 1 0, MhInner 1 1, MhInner 1 2,
      MhInner 1 3, MhInner 1 4, MhInner 1 5, MhWorker 1, MhWorker 1,
      MhWorker 0, MhWorker 0, MhMain, MhWorker 0, MhWorker 1, MhMain] =
     Some \<lparr>mh_in = [], mh_closed = True, mh_pc = AtReturn, mh_wg = 0,
       mh_workers =
         [\<lparr>mw_data = ''x'', mw_pc = MExited,
            mw_multiRes = [''c0x'', ''c1x'', ''c2x'', ''c3x'', ''c4x'', ''c5x''],
            mw_wgIn = 0,
            mw_inner = [InExited, InExited, InExited, InExited, InExited, InExited]\<rparr>,
          \<lparr>mw_data = ''y'', mw_pc = MExited,
            mw_multiRes = [''c0y'', ''c1y'', ''c2y'', ''c3y'', ''c4y'', ''c5y''],
            mw_wgIn = 0,
            mw_inner = [InExited, InExited, InExited, InExited, InExited, InExited]\<rparr>],
       mh_out = [StrV ''c0yc1yc2yc3yc4yc5y'', StrV ''c0xc1xc2xc3xc4xc5x'']\<rparr> \<and>
   mset [StrV ''c0yc1yc2yc3yc4yc5y'', StrV ''c0xc1xc2xc3xc4xc5x''] =
     mset (map (\<lambda>d. StrV (crc_stub (''0'' @ d) @ crc_stub (''1'' @ d) @ crc_stub (''2'' @ d) @
                          crc_stub (''3'' @ d) @ crc_stub (''4'' @ d) @ crc_stub (''5'' @ d)))
            [''x'', ''y''])"
proof -
  let ?s = "\<lparr>mh_in = [], mh_closed = True, mh_pc = AtReturn, mh_wg = 0,
       mh_workers =
         [\<lparr>mw_data = ''x'', mw_pc = MExited,
            mw_multiRes = [''c0x'', ''c1x'', ''c2x'', ''c3x'', ''c4x'', ''c5x''],
            mw_wgIn = 0,
            mw_inner = [InExited, InExited, InExited, InExited, InExited, InExited]\<rparr>,
          \<lparr>mw_data = ''y'', mw_pc = MExited,
            mw_multiRes = [''c0y'', ''c1y'', ''c2y'', ''c3y'', ''c4y'', ''c5y''],
            mw_wgIn = 0,
            mw_inner = [InExited, InExited, InExited, InExited, InExited, InExited]\<rparr>],
       mh_out = [StrV ''c0yc1yc2yc3yc4yc5y'', StrV ''c0xc1xc2xc3xc4xc5x'']\<rparr>"
  have run: "mh_exec crc_stub (MultiHash_init (map StrV [''x'', ''y'']) True)
     [MhMain, MhMain, MhWorker 1, MhWorker 1, MhWorker 1, MhWorker 1,
      MhWorker 1, MhWorker 1, MhWorker 1, MhWorker 0, MhWorker 0, MhWorker 0,
      MhWorker 0, MhWorker 0, MhWorker 0, MhWorker 0, MhInner 1 5,
      MhInner 1 3, MhInner 1 1, MhInner 1 0, MhInner 1 2, MhInner 1 4,
      MhInner 0 2, MhInner 0 4, MhInner 0 0, MhInner 0 1, MhInner 0 5,
      MhInner 0 3, MhInner 0 0, MhInner 0 1, MhInner 0 2, MhInner 0 3,
      MhInner 0 4, MhInner 0 5, MhInner 1 0, MhInner 1 1, MhInner 1 2,
      MhInner 1 3, MhInner 1 4, MhInner 1 5, MhWorker 1, MhWorker 1,
      MhWorker 0, MhWorker 0, MhMain, MhWorker 0, MhWorker 1, MhMain] = Some ?s"
    by code_simp
  have "mset [StrV ''c0yc1yc2yc3yc4yc5y'', StrV ''c0xc1xc2xc3xc4xc5x''] =
     mset (map (\<lambda>d. StrV (crc_stub (''0'' @ d) @ crc_stub (''1'' @ d) @ crc_stub (''2'' @ d) @
                          crc_stub (''3'' @ d) @ crc_stub (''4'' @ d) @ crc_stub (''5'' @ d)))
            [''x'', ''y''])"
    using MultiHash_emits_six_in_index_order [OF run]
    by (simp add: crc_stub_def)
  with run show ?thesis by (rule conjI)
qed

subsection \<open>One value sent for each value consumed\<close>

text \<open>
  C8. In every state without a panic that \<open>SingleHash\<close> or \<open>MultiHash\<close> reaches, on
  any input and under any schedule: every value consumed from the input has started
  exactly one goroutine (the goroutines and the values still to come add up to the
  input), the values sent are as many as the goroutines that have passed their send, and
  once the stage has returned it has sent as many values as it was given. No consumed
  value is dropped: without another receive the run can be continued to a state where as
  many values have been sent as were consumed, after the ones sent already, and when no
  goroutine of an item can move this is already so.
\<close>

theorem one_output_per_consumed_value:
  assumes sh: "sh_exec crc32 md5 (SingleHash_init inp closed) sched = Some s"
    and shp: "sh_pc s \<noteq> AtPanic"
    and mh: "mh_exec crc32 (MultiHash_init inp' closed') sched' = Some t"
    and mhp: "mh_pc t \<noteq> AtPanic"
  shows "length (sh_workers s) + length (sh_in s) = length inp \<and>
         length (sh_out s) = length (filter sh_sent (sh_workers s)) \<and>
         (sh_pc s = AtReturn \<longrightarrow> length (sh_out s) = length inp) \<and>
         length (mh_workers t) + length (mh_in t) = length inp' \<and>
         length (mh_out t) = length (filter mw_sent (mh_workers t)) \<and>
         (mh_pc t = AtReturn \<longrightarrow> length (mh_out t) = length inp') \<and>
         (\<exists>sched1 s'. sh_exec crc32 md5 s sched1 = Some s' \<and> sh_in s' = sh_in s \<and>
            (\<exists>ys. sh_out s' = sh_out s @ ys) \<and>
            length (sh_out s') + length (sh_in s) = length inp) \<and>
         ((\<forall>i. sh_step crc32 md5 s (ShWorker i) = None \<and> sh_step crc32 md5 s (ShSub i) = None) \<longrightarrow>
            length (sh_out s) + length (sh_in s) = length inp) \<and>
         (\<exists>sched2 t'. mh_exec crc32 t sched2 = Some t' \<and> mh_in t' = mh_in t \<and>
            (\<exists>ys. mh_out t' = mh_out t @ ys) \<and>
            length (mh_out t') + length (mh_in t) = length inp') \<and>
         ((\<forall>i j. mh_step crc32 t (MhWorker i) = None \<and> mh_step crc32 t (MhInner i j) = None) \<longrightarrow>
            length (mh_out t) + length (mh_in t) = length inp')"
proof -
  have c1: "length (sh_workers s) + length (sh_in s) = length inp"
    using sh_exec_count [OF sh shp] by (simp add: SingleHash_init_def)
  have i1: "sh_inv crc32 md5 (sh_expected crc32 md5 inp) s"
    using sh by (rule sh_reach_inv)
  then have o1: "length (sh_out s) = length (filter sh_sent (sh_workers s))"
    by (simp add: sh_inv_def)
  have e1: "length (sh_out u) = length (sh_workers u)"
    if "sh_inv crc32 md5 (sh_expected crc32 md5 inp) u" "filter sh_live (sh_workers u) = []" for u
    using that by (simp add: sh_inv_def sh_sent_exited)
  have r1: "length (sh_out s) = length inp" if "sh_pc s = AtReturn"
  proof -
    from i1 that have "length (filter sh_live (sh_workers s)) = 0" and "sh_in s = []"
      by (simp_all add: sh_inv_def)
    then have "filter sh_live (sh_workers s) = []" and "sh_in s = []"
      by simp_all
    with e1 [OF i1] c1 show ?thesis by simp
  qed
  have d1: "\<exists>sched1 s'. sh_exec crc32 md5 s sched1 = Some s' \<and> sh_in s' = sh_in s \<and>
            (\<exists>ys. sh_out s' = sh_out s @ ys) \<and>
            length (sh_out s') + length (sh_in s) = length inp"
  proof -
    from sh_drain [OF i1 shp] obtain sched1 s' where d: "sh_exec crc32 md5 s sched1 = Some s'"
      "sh_in s' = sh_in s" "length (sh_workers s') = length (sh_workers s)"
      "filter sh_live (sh_workers s') = []"
      by blast
    have "sh_inv crc32 md5 (sh_expected crc32 md5 inp) s'" using d(1) i1 by (rule sh_exec_inv)
    from e1 [OF this d(4)] d(3) c1 have "length (sh_out s') + length (sh_in s) = length inp"
      by simp
    with d sh_exec_out [OF d(1)] show ?thesis by blast
  qed
  have n1: "length (sh_out s) + length (sh_in s) = length inp"
    if "\<forall>i. sh_step crc32 md5 s (ShWorker i) = None \<and> sh_step crc32 md5 s (ShSub i) = None"
  proof -
    have "filter sh_live (sh_workers s) = []"
    proof (rule ccontr)
      assume "filter sh_live (sh_workers s) \<noteq> []"
      from sh_goroutine_enabled [OF i1 shp this] that show False by auto
    qed
    from e1 [OF i1 this] c1 show ?thesis by simp
  qed
  have c2: "length (mh_workers t) + length (mh_in t) = length inp'"
    using mh_exec_count [OF mh mhp] by (simp add: MultiHash_init_def)
  have i2: "mh_inv crc32 (mh_expected crc32 inp') t"
    using mh by (rule mh_reach_inv)
  then have o2: "length (mh_out t) = length (filter mw_sent (mh_workers t))"
    by (simp add: mh_inv_def)
  have e2: "length (mh_out u) = length (mh_workers u)"
    if "mh_inv crc32 (mh_expected crc32 inp') u" "filter mw_live (mh_workers u) = []" for u
    using that mw_sent_exited [OF that(2)] by (simp add: mh_inv_def)
  have r2: "length (mh_out t) = length inp'" if "mh_pc t = AtReturn"
  proof -
    from i2 that have "length (filter mw_live (mh_workers t)) = 0" and "mh_in t = []"
      by (simp_all add: mh_inv_def)
    then have "filter mw_live (mh_workers t) = []" and "mh_in t = []"
      by simp_all
    with e2 [OF i2] c2 show ?thesis by simp
  qed
  have d2: "\<exists>sched2 t'. mh_exec crc32 t sched2 = Some t' \<and> mh_in t' = mh_in t \<and>
            (\<exists>ys. mh_out t' = mh_out t @ ys) \<and>
            length (mh_out t') + length (mh_in t) = length inp'"
  proof -
    from mh_drain [OF i2 mhp] obtain sched2 t' where d: "mh_exec crc32 t sched2 = Some t'"
      "mh_in t' = mh_in t" "length (mh_workers t') = length (mh_workers t)"
      "filter mw_live (mh_workers t') = []"
      by blast
    have "mh_inv crc32 (mh_expected crc32 inp') t'" using d(1) i2 by (rule mh_exec_inv)
    from e2 [OF this d(4)] d(3) c2 have "length (mh_out t') + length (mh_in t) = length inp'"
      by simp
    with d mh_exec_out [OF d(1)] show ?thesis by blast
  qed
  have n2: "length (mh_out t) + length (mh_in t) = length inp'"
    if "\<forall>i j. mh_step crc32 t (MhWorker i) = None \<and> mh_step crc32 t (MhInner i j) = None"
  proof -
    have "filter mw_live (mh_workers t) = []"
    proof (rule ccontr)
      assume "filter mw_live (mh_workers t) \<noteq> []"
      from mh_goroutine_enabled [OF i2 mhp this] that show False by auto
    qed
    from e2 [OF i2 this] c2 show ?thesis by simp
  qed
  from c1 o1 r1 c2 o2 r2 d1 n1 d2 n2 show ?thesis by blast
qed

theorem one_output_per_consumed_value_witness:
  "sh_exec crc_stub md5_stub (SingleHash_init (map IntV [3, 4]) True)
     [ShMain, ShMain, ShWorker 1, ShWorker 1, ShWorker 1, ShWorker 0,
      ShWorker 0, ShWorker 0, ShWorker 0, ShWorker 1, ShSub 1, ShSub 0,
      ShWorker 0, ShWorker 1, ShWorker 1, ShWorker 1, ShWorker 0, ShWorker 0,
      ShMain, ShWorker 0, ShWorker 1, ShMain] =
     Some \<lparr>sh_in = [], sh_closed = True, sh_pc = AtReturn, sh_wg = 0, sh_mu = False,
           sh_workers = [Exited, Exited],
           sh_out = [StrV ''c4~cm4'', StrV ''c3~cm3'']\<rparr> \<and>
   mh_exec crc_stub (MultiHash_init (map StrV [''a'', ''b'']) True)
     [MhMain, MhMain, MhWorker 1, MhWorker 1, MhWorker 1, MhWorker 1,
      MhWorker 1, MhWorker 1, MhWorker 1, MhWorker 0, MhWorker 0, MhWorker 0,
      MhWorker 0, MhWorker 0, MhWorker 0, MhWorker 0, MhInner 1 5,
      MhInner 1 3, MhInner 1 1, MhInner 1 0, MhInner 1 2, MhInner 1 4,
      MhInner 0 2, MhInner 0 4, MhInner 0 0, MhInner 0 1, MhInner 0 5,
      MhInner 0 3, MhInner 0 0, MhInner 0 1, MhInner 0 2, MhInner 0 3,
      MhInner 0 4, MhInner 0 5, MhInner 1 0, MhInner 1 1, MhInner 1 2,
      MhInner 1 3, MhInner 1 4, MhInner 1 5, MhWorker 1, MhWorker 1,
      MhWorker 0, MhWorker 0, MhMain, MhWorker 0, MhWorker 1, MhMain] =
     Some \<lparr>mh_in = [], mh_closed = True, mh_pc = AtReturn, mh_wg = 0,
       mh_workers =
         [\<lparr>mw_data = ''a'', mw_pc = MExited,
            mw_multiRes = [''c0a'', ''c1a'', ''c2a'', ''c3a'', ''c4a'', ''c5a''],
            mw_wgIn = 0,
            mw_inner = [InExited, InExited, InExited, InExited, InExited, InExited]\<rparr>,
          \<lparr>mw_data = ''b'', mw_pc = MExited,
            mw_multiRes = [''c0b'', ''c1b'', ''c2b'', ''c3b'', ''c4b'', ''c5b''],
            mw_wgIn = 0,
            mw_inner = [InExited, InExited, InExited, InExited, InExited, InExited]\<rparr>],
       mh_out = [StrV ''c0bc1bc2bc3bc4bc5b'', StrV ''c0ac1ac2ac3ac4ac5a'']\<rparr> \<and>
   length [StrV ''c4~cm4'', StrV ''c3~cm3''] = length (map IntV [3, 4]) \<and>
   length [StrV ''c0bc1bc2bc3bc4bc5b'', StrV ''c0ac1ac2ac3ac4ac5a''] =
     length (map StrV [''a'', ''b''])"
proof -
  let ?s = "\<lparr>sh_in = [], sh_closed = True, sh_pc = AtReturn, sh_wg = 0, sh_mu = False,
           sh_workers = [Exited, Exited],
           sh_out = [StrV ''c4~cm4'', StrV ''c3~cm3'']\<rparr>"
  let ?t = "\<lparr>mh_in = [], mh_closed = True, mh_pc = AtReturn, mh_wg = 0,
       mh_workers =
         [\<lparr>mw_data = ''a'', mw_pc = MExited,
            mw_multiRes = [''c0a'', ''c1a'', ''c2a'', ''c3a'', ''c4a'', ''c5a''],
            mw_wgIn = 0,
            mw_inner = [InExited, InExited, InExited, InExited, InExited, InExited]\<rparr>,
          \<lparr>mw_data = ''b'', mw_pc = MExited,
            mw_multiRes = [''c0b'', ''c1b'', ''c2b'', ''c3b'', ''c4b'', ''c5b''],
            mw_wgIn = 0,
            mw_inner = [InExited, InExited, InExited, InExited, InExited, InExited]\<rparr>],
       mh_out = [StrV ''c0bc1bc2bc3bc4bc5b'', StrV ''c0ac1ac2ac3ac4ac5a'']\<rparr>"
  have run1: "sh_exec crc_stub md5_stub (SingleHash_init (map IntV [3, 4]) True)
     [ShMain, ShMain, ShWorker 1, ShWorker 1, ShWorker 1, ShWorker 0,
      ShWorker 0, ShWorker 0, ShWorker 0, ShWorker 1, ShSub 1, ShSub 0,
      ShWorker 0, ShWorker 1, ShWorker 1, ShWorker 1, ShWorker 0, ShWorker 0,
      ShMain, ShWorker 0, ShWorker 1, ShMain] = Some ?s"
    by code_simp
  have run2: "mh_exec crc_stub (MultiHash_init (map StrV [''a'', ''b'']) True)
     [MhMain, MhMain, MhWorker 1, MhWorker 1, MhWorker 1, MhWorker 1,
      MhWorker 1, MhWorker 1, MhWorker 1, MhWorker 0, MhWorker 0, MhWorker 0,
      MhWorker 0, MhWorker 0, MhWorker 0, MhWorker 0, MhInner 1 5,
      MhInner 1 3, MhInner 1 1, MhInner 1 0, MhInner 1 2, MhInner 1 4,
      MhInner 0 2, MhInner 0 4, MhInner 0 0, MhInner 0 1, MhInner 0 5,
      MhInner 0 3, MhInner 0 0, MhInner 0 1, MhInner 0 2, MhInner 0 3,
      MhInner 0 4, MhInner 0 5, MhInner 1 0, MhInner 1 1, MhInner 1 2,
      MhInner 1 3, MhInner 1 4, MhInner 1 5, MhWorker 1, MhWorker 1,
      MhWorker 0, MhWorker 0, MhMain, MhWorker 0, MhWorker 1, MhMain] = Some ?t"
    by code_simp
  have "length [StrV ''c4~cm4'', StrV ''c3~cm3''] = length (map IntV [3, 4]) \<and>
        length [StrV ''c0bc1bc2bc3bc4bc5b'', StrV ''c0ac1ac2ac3ac4ac5a''] =
          length (map StrV [''a'', ''b''])"
    using one_output_per_consumed_value [OF run1 _ run2] by simp
  with run1 run2 show ?thesis by blast
qed

section \<open>ExecutePipeline\<close>

subsection \<open>The invariant of ExecutePipeline\<close>










subsection \<open>ExecutePipeline: channels, goroutines and the return\<close>




subsection \<open>ExecutePipeline without jobs\<close>

text \<open>
  C9. \<open>ExecutePipeline\<close> called with no job panics at \<open>jobs[0]\<close>, under every schedule,
  before any goroutine is started; with at least one job it starts.
\<close>

theorem ExecutePipeline_no_jobs:
  "ExecutePipeline ([] :: 'j list) sched = Inl IndexOutOfRange \<and>
   (\<forall>(j :: 'j) js. \<exists>s. ExecutePipeline (j # js) [] = Inr (Some s))"
  by (simp add: ExecutePipeline_def ExecutePipeline_start_def)


end
